theory Spec2Isabelle
  imports Complex_Main "HOL-Library.Word" "HOL-Library.Monad_Syntax" "HOL-Library.Log_Nat"
    "HOL-Library.Sublist"
begin

unbundle bit_operations_syntax

section \<open>The deterministic generator (makeRng)\<close>

text \<open>
  \<^verbatim>\<open>makeRng(seed)\<close> keeps one 32-bit state \<^verbatim>\<open>s = seed >>> 0\<close> in its closure. The
  bitwise operators of JavaScript work on the 32-bit pattern of their operands, so the
  state is a \<open>32 word\<close>: \<^verbatim>\<open>s << k\<close> is \<open>push_bit k\<close>, \<^verbatim>\<open>s >>> k\<close> is \<open>drop_bit k\<close>,
  \<^verbatim>\<open>^\<close> is \<open>XOR\<close>. A call of the returned closure is \<open>rng_next\<close>: it yields the new
  state and the number \<^verbatim>\<open>(s >>> 0) / 4294967296\<close>.
\<close>

type_synonym u32 = "32 word"

definition makeRng :: "int \<Rightarrow> u32" where
  "makeRng seed = word_of_int seed"

definition xorshift :: "u32 \<Rightarrow> u32" where
  "xorshift s =
     (let s1 = s XOR push_bit 13 s;
          s2 = s1 XOR drop_bit 17 s1;
          s3 = s2 XOR push_bit 5 s2
      in s3)"

definition rng_next :: "u32 \<Rightarrow> real \<times> u32" where
  "rng_next s = (let s' = xorshift s in (real (unat s') / 4294967296, s'))"

text \<open>The state after \<open>k\<close> calls, and the value the \<open>k\<close>-th call (counted from 0) returns.\<close>

fun rng_state :: "nat \<Rightarrow> u32 \<Rightarrow> u32" where
  "rng_state 0 s = s"
| "rng_state (Suc k) s = rng_state k (snd (rng_next s))"

definition rng_output :: "nat \<Rightarrow> u32 \<Rightarrow> real" where
  "rng_output k s = fst (rng_next (rng_state k s))"

section \<open>Data model\<close>

text \<open>
  JavaScript numbers that hold coordinates, velocities and times are modelled as
  mathematical reals: the rounding of IEEE doubles is not part of the model. Node indices,
  which the source keeps as integers with \<open>-1\<close> for "no such cell", are \<open>int\<close>; counts
  and list positions are \<open>nat\<close>.
\<close>

record node =
  n_x :: real
  n_y :: real
  n_bx :: real
  n_by :: real
  n_vx :: real
  n_vy :: real
  n_deg :: nat
  n_hub :: bool

record graph =
  nodes :: "node list"
  edges :: "(int \<times> int) list"

text \<open>The module-level variables of the closure.\<close>

record sim =
  graph :: graph
  lastW :: int
  lastH :: int
  lastSpacing :: real
  mouseX :: real
  mouseY :: real
  mouseActive :: bool
  mouseMoveAt :: real
  raf :: nat
  running :: bool
  lastTs :: real
  pending :: "nat list"
  nextHandle :: nat

text \<open>
  A \<^verbatim>\<open>TypeError\<close> (reading a property of \<^verbatim>\<open>undefined\<close>, as \<^verbatim>\<open>nodes[a].deg\<close> with \<open>a\<close>
  out of range would) aborts the function: such functions return \<open>None\<close>.
\<close>

fun foldM :: "('a \<Rightarrow> 's \<Rightarrow> 's option) \<Rightarrow> 'a list \<Rightarrow> 's \<Rightarrow> 's option" where
  "foldM f [] s = Some s"
| "foldM f (x # xs) s = (case f x s of None \<Rightarrow> None | Some s' \<Rightarrow> foldM f xs s')"

section \<open>The graph builder (buildGraph)\<close>

text \<open>\<^verbatim>\<open>Math.round\<close> rounds half up.\<close>

definition js_round :: "real \<Rightarrow> int" where
  "js_round v = \<lfloor>v + 1 / 2\<rfloor>"

text \<open>
  The product of two integers as a double: exact below \<open>2^53\<close>, otherwise rounded to 53
  significant bits, ties to even.
\<close>

definition round53 :: "nat \<Rightarrow> nat" where
  "round53 p =
     (if p < 2 ^ 53 then p
      else let k = (floorlog 2 p) - 53;
               q = p div 2 ^ k;
               r = p mod 2 ^ k;
               half = 2 ^ (k - 1)
           in (if r > half \<or> (r = half \<and> odd q) then q + 1 else q) * 2 ^ k)"

definition js_mul :: "nat \<Rightarrow> nat \<Rightarrow> nat" where
  "js_mul a b = round53 (a * b)"

text \<open>
  \<^verbatim>\<open>(w * 73856093) ^ (h * 19349663) ^ 0xa53f9b1d\<close>: the operands of \<^verbatim>\<open>^\<close> are taken
  modulo \<open>2^32\<close>.
\<close>

definition seedOf :: "nat \<Rightarrow> nat \<Rightarrow> int" where
  "seedOf w h =
     sint ((word_of_nat (js_mul w 73856093) :: u32) XOR word_of_nat (js_mul h 19349663)
           XOR 0xa53f9b1d)"

definition spacingOf :: "nat \<Rightarrow> real" where
  "spacingOf w = real_of_int (max 30 (min 46 (js_round (real w / 38))))"

definition dyOf :: "nat \<Rightarrow> real" where
  "dyOf w = spacingOf w * 0.866"

definition colsOf :: "nat \<Rightarrow> nat" where
  "colsOf w = nat (\<lceil>real w / spacingOf w\<rceil> + 3)"

definition rowsOf :: "nat \<Rightarrow> nat \<Rightarrow> nat" where
  "rowsOf w h = nat (\<lceil>real h / dyOf w\<rceil> + 3)"

text \<open>
  The local variables of one run of \<^verbatim>\<open>buildGraph\<close>: the generator's state, \<^verbatim>\<open>nodes\<close>,
  \<^verbatim>\<open>idx\<close>, \<^verbatim>\<open>edgeSet\<close>, \<^verbatim>\<open>edges\<close> and \<^verbatim>\<open>chosen\<close> (a \<^verbatim>\<open>Set\<close>, which iterates in
  insertion order: a list without repetitions).
\<close>

record build =
  b_rng :: u32
  b_nodes :: "node list"
  b_idx :: "int list list"
  b_edgeSet :: "string set"
  b_edges :: "(int \<times> int) list"
  b_chosen :: "nat list"

definition build0 :: "u32 \<Rightarrow> nat \<Rightarrow> nat \<Rightarrow> build" where
  "build0 s rows cols =
     \<lparr>b_rng = s, b_nodes = [], b_idx = replicate rows (replicate cols (- 1)),
      b_edgeSet = {}, b_edges = [], b_chosen = []\<rparr>"

text \<open>The cells in the order of the nested loops over \<open>r\<close> and \<open>c\<close>.\<close>

definition cells :: "nat \<Rightarrow> nat \<Rightarrow> (nat \<times> nat) list" where
  "cells rows cols = List.product [0..<rows] [0..<cols]"

text \<open>The body of the first loop: draw the jitter, push the node, record its index.\<close>

definition place :: "real \<Rightarrow> real \<Rightarrow> nat \<times> nat \<Rightarrow> build \<Rightarrow> build" where
  "place spacing dy rc st =
     (case rc of (r, c) \<Rightarrow>
        let rowOffset = real (r mod 2) * (spacing / 2);
            (u1, s1) = rng_next (b_rng st);
            jx = (u1 - 0.5) * spacing * 0.18;
            (u2, s2) = rng_next s1;
            jy = (u2 - 0.5) * dy * 0.18;
            x = real c * spacing + rowOffset + jx - spacing;
            y = real r * dy + jy - dy;
            i = length (b_nodes st)
        in st\<lparr>b_rng := s2,
               b_nodes := b_nodes st @
                 [\<lparr>n_x = x, n_y = y, n_bx = x, n_by = y, n_vx = 0, n_vy = 0,
                   n_deg = 0, n_hub = False\<rparr>],
               b_idx := (b_idx st)[r := (b_idx st ! r)[c := int i]]\<rparr>)"

text \<open>Decimal digits of a number, as a template string prints an index.\<close>

function decimal :: "nat \<Rightarrow> string" where
  "decimal n = (if n < 10 then [char_of (48 + n)]
                else decimal (n div 10) @ [char_of (48 + n mod 10)])"
  by pat_completeness auto
termination
  by (relation "measure id") auto

definition js_str :: "int \<Rightarrow> string" where
  "js_str a = (if a < 0 then CHR ''-'' # decimal (nat (- a)) else decimal (nat a))"

definition edgeKey :: "int \<Rightarrow> int \<Rightarrow> string" where
  "edgeKey a b = (if a < b then js_str a @ ''-'' @ js_str b else js_str b @ ''-'' @ js_str a)"

text \<open>
  \<^verbatim>\<open>addEdge(a, b)\<close>: the guard, the canonical key, the membership test, and the updates
  of \<^verbatim>\<open>edgeSet\<close>, \<^verbatim>\<open>edges\<close> and the two degrees; \<^verbatim>\<open>nodes[a].deg\<close> on a missing node
  aborts.
\<close>

definition bumpDeg :: "nat \<Rightarrow> node list \<Rightarrow> node list" where
  "bumpDeg i ns = ns[i := (ns ! i)\<lparr>n_deg := n_deg (ns ! i) + 1\<rparr>]"

definition addEdge :: "int \<Rightarrow> int \<Rightarrow> build \<Rightarrow> build option" where
  "addEdge a b st =
     (if a < 0 \<or> b < 0 \<or> a = b then Some st
      else let k = edgeKey a b in
        if k \<in> b_edgeSet st then Some st
        else if nat a < length (b_nodes st) \<and> nat b < length (b_nodes st)
        then Some (st\<lparr>b_edgeSet := insert k (b_edgeSet st),
                       b_edges := b_edges st @ [(a, b)],
                       b_nodes := bumpDeg (nat b) (bumpDeg (nat a) (b_nodes st))\<rparr>)
        else None)"

text \<open>\<^verbatim>\<open>idx[r][c] ?? -1\<close> for a row \<open>r\<close> that exists.\<close>

definition idx_at :: "int list list \<Rightarrow> nat \<Rightarrow> int \<Rightarrow> int" where
  "idx_at idx r c = (if 0 \<le> c \<and> nat c < length (idx ! r) then idx ! r ! nat c else - 1)"

definition meshCell :: "nat \<Rightarrow> nat \<times> nat \<Rightarrow> build \<Rightarrow> build option" where
  "meshCell rows rc st =
     (case rc of (r, c) \<Rightarrow>
        let idx = b_idx st; a = idx ! r ! c in
        do {
          st1 \<leftarrow> addEdge a (idx_at idx r (int c + 1)) st;
          if r + 1 < rows then
            if r mod 2 = 0 then
              do {
                st2 \<leftarrow> addEdge a (idx_at idx (r + 1) (int c)) st1;
                addEdge a (idx_at idx (r + 1) (int c - 1)) st2
              }
            else
              do {
                st2 \<leftarrow> addEdge a (idx_at idx (r + 1) (int c)) st1;
                addEdge a (idx_at idx (r + 1) (int c + 1)) st2
              }
          else Some st1
        })"

definition hubCountOf :: "nat \<Rightarrow> nat" where
  "hubCountOf n = nat (max 8 (js_round (real n * 0.024)))"

text \<open>\<^verbatim>\<open>Math.floor(rng() * m)\<close>.\<close>

definition rng_index :: "u32 \<Rightarrow> nat \<Rightarrow> nat \<times> u32" where
  "rng_index s m = (let (u, s') = rng_next s in (nat \<lfloor>u * real m\<rfloor>, s'))"

text \<open>The \<^verbatim>\<open>while (chosen.has(pick) && guard < 60)\<close> loop.\<close>

function redraw :: "nat list \<Rightarrow> nat \<Rightarrow> nat \<Rightarrow> nat \<Rightarrow> u32 \<Rightarrow> nat \<times> u32" where
  "redraw chosen n pick guard s =
     (if pick \<in> set chosen \<and> guard < 60
      then (let (pick', s') = rng_index s n in redraw chosen n pick' (guard + 1) s')
      else (pick, s))"
  by pat_completeness auto
termination
  by (relation "measure (\<lambda>(chosen, n, pick, guard, s). 60 - guard)") auto

text \<open>The value of \<^verbatim>\<open>guard\<close> when that loop ends: the number of redraws of the slot.\<close>

function redrawGuard :: "nat list \<Rightarrow> nat \<Rightarrow> nat \<Rightarrow> nat \<Rightarrow> u32 \<Rightarrow> nat" where
  "redrawGuard chosen n pick guard s =
     (if pick \<in> set chosen \<and> guard < 60
      then (let (pick', s') = rng_index s n in redrawGuard chosen n pick' (guard + 1) s')
      else guard)"
  by pat_completeness auto
termination
  by (relation "measure (\<lambda>(chosen, n, pick, guard, s). 60 - guard)") auto

text \<open>\<^verbatim>\<open>chosen.add(pick)\<close>.\<close>

definition set_add :: "nat \<Rightarrow> nat list \<Rightarrow> nat list" where
  "set_add p chosen = (if p \<in> set chosen then chosen else chosen @ [p])"

text \<open>
  The body of the loop over the hub slots; \<^verbatim>\<open>nodes[pick].hub = true\<close> on a missing node
  aborts.
\<close>

definition selectHub :: "build \<Rightarrow> build option" where
  "selectHub st =
     (let ns = b_nodes st;
          (pick0, s1) = rng_index (b_rng st) (length ns);
          (pick, s2) = redraw (b_chosen st) (length ns) pick0 0 s1
      in if pick < length ns
         then Some (st\<lparr>b_rng := s2, b_chosen := set_add pick (b_chosen st),
                        b_nodes := ns[pick := (ns ! pick)\<lparr>n_hub := True\<rparr>]\<rparr>)
         else None)"

text \<open>\<^verbatim>\<open>Math.hypot\<close>.\<close>

definition hypot :: "real \<Rightarrow> real \<Rightarrow> real" where
  "hypot a b = sqrt (a * a + b * b)"

text \<open>The scan for the nodes within \<open>maxRadius\<close> of a hub, as pairs \<open>(j, d)\<close>.\<close>

definition candidates :: "node list \<Rightarrow> nat \<Rightarrow> real \<Rightarrow> (nat \<times> real) list" where
  "candidates ns hubIdx maxRadius =
     (let hub = ns ! hubIdx in
        filter (\<lambda>(j, d). d < maxRadius)
          (map (\<lambda>j. (j, hypot (n_x (ns ! j) - n_x hub) (n_y (ns ! j) - n_y hub)))
             (filter (\<lambda>j. j \<noteq> hubIdx) [0..<length ns])))"

text \<open>One far link: \<^verbatim>\<open>target = candidates[candidates.length - 1 - idxPick]\<close>, skipped
  when that is \<^verbatim>\<open>undefined\<close>.\<close>

definition farLink :: "nat \<Rightarrow> (nat \<times> real) list \<Rightarrow> build \<Rightarrow> build option" where
  "farLink hubIdx cands st =
     (let (idxPick, s1) = rng_index (b_rng st) (length cands);
          t = int (length cands) - 1 - int idxPick;
          st1 = st\<lparr>b_rng := s1\<rparr>
      in if 0 \<le> t \<and> t < int (length cands)
         then addEdge (int hubIdx) (int (fst (cands ! nat t))) st1
         else Some st1)"

text \<open>
  The body of \<^verbatim>\<open>for (const hubIdx of chosen)\<close>: scan and sort the candidates, link the
  nearest \<^verbatim>\<open>links\<close> of them, then draw \<^verbatim>\<open>farLinks\<close> far links. Reading \<^verbatim>\<open>hub.x\<close> of a
  missing hub aborts.
\<close>

definition linkHub :: "real \<Rightarrow> nat \<Rightarrow> build \<Rightarrow> build option" where
  "linkHub maxRadius hubIdx st =
     (if hubIdx < length (b_nodes st) then
        let cands = sort_key snd (candidates (b_nodes st) hubIdx maxRadius);
            (l, s1) = rng_index (b_rng st) 8;
            links = 8 + l
        in do {
          st1 \<leftarrow> foldM (\<lambda>k. addEdge (int hubIdx) (int (fst (cands ! k))))
                   [0..<min links (length cands)] (st\<lparr>b_rng := s1\<rparr>);
          let (f, s2) = rng_index (b_rng st1) 2;
          let farLinks = 2 + f;
          foldM (\<lambda>_. farLink hubIdx cands) [0..<farLinks] (st1\<lparr>b_rng := s2\<rparr>)
        }
      else None)"

text \<open>The four loops of \<^verbatim>\<open>buildGraph\<close>, one after the other.\<close>

definition lattice :: "nat \<Rightarrow> nat \<Rightarrow> build" where
  "lattice w h =
     fold (place (spacingOf w) (dyOf w)) (cells (rowsOf w h) (colsOf w))
       (build0 (makeRng (seedOf w h)) (rowsOf w h) (colsOf w))"

definition meshed :: "nat \<Rightarrow> nat \<Rightarrow> build option" where
  "meshed w h = foldM (meshCell (rowsOf w h)) (cells (rowsOf w h) (colsOf w)) (lattice w h)"

definition selectHubs :: "build \<Rightarrow> build option" where
  "selectHubs st = foldM (\<lambda>_. selectHub) [0..<hubCountOf (length (b_nodes st))] st"

definition linkHubs :: "real \<Rightarrow> build \<Rightarrow> build option" where
  "linkHubs maxRadius st = foldM (linkHub maxRadius) (b_chosen st) st"

definition buildPhases :: "nat \<Rightarrow> nat \<Rightarrow> build option" where
  "buildPhases w h =
     do {
       st2 \<leftarrow> meshed w h;
       st3 \<leftarrow> selectHubs st2;
       linkHubs (spacingOf w * 8.4) st3
     }"

text \<open>The returned object \<^verbatim>\<open>{ nodes, edges }\<close>.\<close>

definition graphOf :: "build \<Rightarrow> graph" where
  "graphOf st = \<lparr>nodes = b_nodes st, edges = b_edges st\<rparr>"

definition buildGraph :: "nat \<Rightarrow> nat \<Rightarrow> sim \<Rightarrow> (graph \<times> sim) option" where
  "buildGraph w h sm =
     (let sm' = sm\<lparr>lastSpacing := spacingOf w\<rparr> in
        map_option (\<lambda>st. (graphOf st, sm')) (buildPhases w h))"

declare redraw.simps [simp del]
declare redrawGuard.simps [simp del]
declare decimal.simps [simp del]

text \<open>The initial values of the module-level variables.\<close>

definition sim0 :: sim where
  "sim0 = \<lparr>graph = \<lparr>nodes = [], edges = []\<rparr>, lastW = 0, lastH = 0, lastSpacing = 40,
           mouseX = - 1, mouseY = - 1, mouseActive = False, mouseMoveAt = 0,
           raf = 0, running = False, lastTs = 0, pending = [], nextHandle = 1\<rparr>"

section \<open>The physics stepper (step)\<close>

text \<open>
  What the loop body adds to \<open>(ax, ay)\<close> inside \<^verbatim>\<open>if (recentlyMoved)\<close>: the pull towards
  the pointer, or nothing when the node is outside the attraction radius or on the
  pointer.
\<close>

definition pointerPull :: "sim \<Rightarrow> node \<Rightarrow> real \<times> real" where
  "pointerPull sm n =
     (let attractRadius = lastSpacing sm * 4.8;
          attractRadiusSq = attractRadius * attractRadius;
          attractK = 2200;
          hubBoost = 1.34;
          dx = mouseX sm - n_x n;
          dy = mouseY sm - n_y n;
          d2 = dx * dx + dy * dy
      in if d2 > 1 / 1000000 \<and> d2 < attractRadiusSq
         then let d = sqrt d2;
                  t = 1 - d / attractRadius;
                  pull = attractK * t * t;
                  m = (if n_hub n then hubBoost else 1)
              in ((dx / d) * pull * m, (dy / d) * pull * m)
         else (0, 0))"

definition recentlyMoved :: "bool \<Rightarrow> real \<Rightarrow> sim \<Rightarrow> bool" where
  "recentlyMoved allowInteraction nowMs sm \<longleftrightarrow>
     allowInteraction \<and> mouseActive sm \<and> nowMs - mouseMoveAt sm < 180"

definition pointerAccel :: "bool \<Rightarrow> real \<Rightarrow> sim \<Rightarrow> node \<Rightarrow> real \<times> real" where
  "pointerAccel allowInteraction nowMs sm n =
     (if recentlyMoved allowInteraction nowMs sm then pointerPull sm n else (0, 0))"

text \<open>The loop body for one node.\<close>

definition stepNode :: "real \<Rightarrow> real \<Rightarrow> bool \<Rightarrow> sim \<Rightarrow> node \<Rightarrow> node" where
  "stepNode dt nowMs allowInteraction sm n =
     (let springK = 8.8;
          damping = exp (- 6.4 * dt);
          (px, py) = pointerAccel allowInteraction nowMs sm n;
          ax = (n_bx n - n_x n) * springK + px;
          ay = (n_by n - n_y n) * springK + py;
          vx = (n_vx n + ax * dt) * damping;
          vy = (n_vy n + ay * dt) * damping
      in n\<lparr>n_vx := vx, n_vy := vy, n_x := n_x n + vx * dt, n_y := n_y n + vy * dt\<rparr>)"

text \<open>The loop over \<^verbatim>\<open>graph.nodes\<close>, which updates each node and adds to \<^verbatim>\<open>energy\<close>.\<close>

fun stepLoop :: "(node \<Rightarrow> node) \<Rightarrow> node list \<Rightarrow> real \<Rightarrow> node list \<times> real" where
  "stepLoop f [] energy = ([], energy)"
| "stepLoop f (n # ns) energy =
     (let n' = f n;
          (ns', energy') = stepLoop f ns (energy + (\<bar>n_vx n'\<bar> + \<bar>n_vy n'\<bar>))
      in (n' # ns', energy'))"

text \<open>\<^verbatim>\<open>step(dt, nowMs)\<close>; the value of \<^verbatim>\<open>interactionEnabled()\<close> is an input.\<close>

definition step :: "real \<Rightarrow> real \<Rightarrow> bool \<Rightarrow> sim \<Rightarrow> real \<times> sim" where
  "step dt nowMs allowInteraction sm =
     (let g = graph sm;
          (ns', energy) = stepLoop (stepNode dt nowMs allowInteraction sm) (nodes g) 0
      in (energy / max 1 (real (length (nodes g))), sm\<lparr>graph := g\<lparr>nodes := ns'\<rparr>\<rparr>))"

text \<open>
  A call of \<^verbatim>\<open>step\<close> together with the pointer state and the interaction state it finds.
\<close>

record call =
  c_dt :: real
  c_now :: real
  c_allow :: bool
  c_mouseX :: real
  c_mouseY :: real
  c_mouseActive :: bool
  c_mouseMoveAt :: real

definition stepCall :: "call \<Rightarrow> sim \<Rightarrow> sim" where
  "stepCall c sm =
     snd (step (c_dt c) (c_now c) (c_allow c)
            (sm\<lparr>mouseX := c_mouseX c, mouseY := c_mouseY c,
                 mouseActive := c_mouseActive c, mouseMoveAt := c_mouseMoveAt c\<rparr>))"

definition stepCalls :: "call list \<Rightarrow> sim \<Rightarrow> sim" where
  "stepCalls cs sm = fold stepCall cs sm"

text \<open>What a step must leave as it is: rest position, degree and hub flag of every node.\<close>

definition shapeOf :: "graph \<Rightarrow> (real \<times> real \<times> nat \<times> bool) list \<times> (int \<times> int) list" where
  "shapeOf g = (map (\<lambda>n. (n_bx n, n_by n, n_deg n, n_hub n)) (nodes g), edges g)"

text \<open>
  Repeated stepping with \<open>dt = 0.016\<close> and interaction disabled; \<open>settleMetric nows k\<close> is
  what the call after \<open>k\<close> earlier calls returns. \<open>nows\<close> gives the timestamps.
\<close>

fun settleRun :: "(nat \<Rightarrow> real) \<Rightarrow> nat \<Rightarrow> sim \<Rightarrow> sim" where
  "settleRun nows 0 sm = sm"
| "settleRun nows (Suc k) sm = snd (step 0.016 (nows k) False (settleRun nows k sm))"

definition settleMetric :: "(nat \<Rightarrow> real) \<Rightarrow> nat \<Rightarrow> sim \<Rightarrow> real" where
  "settleMetric nows k sm = fst (step 0.016 (nows k) False (settleRun nows k sm))"

text \<open>Every node 10 units from its rest position, at rest.\<close>

definition displaced10 :: "sim \<Rightarrow> bool" where
  "displaced10 sm =
     list_all (\<lambda>n. hypot (n_x n - n_bx n) (n_y n - n_by n) = 10 \<and> n_vx n = 0 \<and> n_vy n = 0)
       (nodes (graph sm))"

section \<open>The scheduler (ensureRun, frame)\<close>

text \<open>
  What the handlers read from the page: the viewport, the value of
  \<^verbatim>\<open>interactionEnabled()\<close> and \<^verbatim>\<open>performance.now()\<close>. The host's queue of requested
  animation frames is \<open>pending\<close>, with \<open>nextHandle\<close> the next handle it gives out. Drawing
  and the sizing of the canvas change none of the variables and are left out. The module
  does nothing at all when the canvas has no 2d context; the model is of the other case.
\<close>

record env =
  innerWidth :: int
  innerHeight :: int
  interaction :: bool
  perfNow :: real

definition resizeMaybeRebuild :: "bool \<Rightarrow> env \<Rightarrow> sim \<Rightarrow> sim option" where
  "resizeMaybeRebuild force e sm =
     (let w = max 1 (innerWidth e); h = max 1 (innerHeight e) in
        if force \<or> \<bar>w - lastW sm\<bar> > 36 \<or> \<bar>h - lastH sm\<bar> > 36
           \<or> length (nodes (graph sm)) = 0
        then do {
          (g, sm') \<leftarrow> buildGraph (nat w) (nat h) sm;
          Some (sm'\<lparr>graph := g, lastW := w, lastH := h\<rparr>)
        }
        else Some sm)"

definition requestAnimationFrame :: "sim \<Rightarrow> nat \<times> sim" where
  "requestAnimationFrame sm =
     (nextHandle sm,
      sm\<lparr>pending := pending sm @ [nextHandle sm], nextHandle := nextHandle sm + 1\<rparr>)"

definition ensureRun :: "bool \<Rightarrow> env \<Rightarrow> sim \<Rightarrow> sim option" where
  "ensureRun forceRebuild e sm =
     do {
       sm1 \<leftarrow> resizeMaybeRebuild forceRebuild e sm;
       if \<not> running sm1
       then let (handle, sm2) =
                  requestAnimationFrame (sm1\<lparr>running := True, lastTs := perfNow e\<rparr>)
            in Some (sm2\<lparr>raf := handle\<rparr>)
       else Some sm1
     }"

text \<open>\<^verbatim>\<open>v || 0.016\<close> on numbers.\<close>

definition js_or :: "real \<Rightarrow> real \<Rightarrow> real" where
  "js_or v d = (if v = 0 then d else v)"

definition frame :: "real \<Rightarrow> env \<Rightarrow> sim \<Rightarrow> sim option" where
  "frame ts e sm =
     (if \<not> running sm then Some sm
      else
        let dt = min 0.032 (max 0.008 (js_or ((ts - lastTs sm) / 1000) 0.016)) in
        do {
          sm1 \<leftarrow> resizeMaybeRebuild False e (sm\<lparr>lastTs := ts\<rparr>);
          let (en, sm2) = step dt ts (interaction e) sm1;
          let settling = en > 0.0013;
          if settling \<or> recentlyMoved (interaction e) ts sm2
          then let (handle, sm3) = requestAnimationFrame sm2 in Some (sm3\<lparr>raf := handle\<rparr>)
          else Some (sm2\<lparr>running := False, raf := 0\<rparr>)
        })"

text \<open>
  The events the module listens to. \<open>Frame ts\<close> is the host running the oldest requested
  animation frame.
\<close>

datatype event =
    Mutation
  | Resize
  | PointerMove real real
  | PointerLeave
  | TouchMove "(real \<times> real) list"
  | TouchEnd
  | Redraw
  | Frame real

fun handleEvent :: "event \<Rightarrow> env \<Rightarrow> sim \<Rightarrow> sim option" where
  "handleEvent Mutation e sm = ensureRun False e sm"
| "handleEvent Resize e sm = ensureRun True e sm"
| "handleEvent (PointerMove cx cy) e sm =
     (if \<not> interaction e then Some sm
      else ensureRun False e
             (sm\<lparr>mouseX := cx, mouseY := cy, mouseActive := True, mouseMoveAt := perfNow e\<rparr>))"
| "handleEvent PointerLeave e sm =
     ensureRun False e (sm\<lparr>mouseActive := False, mouseMoveAt := perfNow e\<rparr>)"
| "handleEvent (TouchMove touches) e sm =
     (if \<not> interaction e then Some sm
      else case touches of
        [] \<Rightarrow> Some sm
      | (cx, cy) # _ \<Rightarrow>
          ensureRun False e
            (sm\<lparr>mouseX := cx, mouseY := cy, mouseActive := True, mouseMoveAt := perfNow e\<rparr>))"
| "handleEvent TouchEnd e sm =
     ensureRun False e (sm\<lparr>mouseActive := False, mouseMoveAt := perfNow e\<rparr>)"
| "handleEvent Redraw e sm = ensureRun False e sm"
| "handleEvent (Frame ts) e sm =
     (case pending sm of
        [] \<Rightarrow> Some sm
      | _ # rest \<Rightarrow> frame ts e (sm\<lparr>pending := rest\<rparr>))"

text \<open>The module body ends with \<^verbatim>\<open>ensureRun(true)\<close>; then events arrive.\<close>

definition runEvents :: "env \<Rightarrow> (event \<times> env) list \<Rightarrow> sim option" where
  "runEvents e0 evs =
     do {
       sm \<leftarrow> ensureRun True e0 sim0;
       foldM (\<lambda>(ev, e). handleEvent ev e) evs sm
     }"

text \<open>Running means one requested frame, idle means none.\<close>

definition sched_ok :: "sim \<Rightarrow> bool" where
  "sched_ok sm \<longleftrightarrow> length (pending sm) \<le> 1 \<and> (running sm \<longleftrightarrow> pending sm \<noteq> [])"

section \<open>Predicates, invariants and instances\<close>

definition edge_valid :: "nat \<Rightarrow> int \<times> int \<Rightarrow> bool" where
  "edge_valid n e = (0 \<le> fst e \<and> 0 \<le> snd e \<and> fst e \<noteq> snd e \<and> fst e < int n \<and> snd e < int n)"

definition pairOf :: "int \<times> int \<Rightarrow> int set" where
  "pairOf e = {fst e, snd e}"

text \<open>No self-edge, both endpoints indices of the node sequence, no unordered pair twice.\<close>

definition edges_ok :: "graph \<Rightarrow> bool" where
  "edges_ok g =
     (list_all (edge_valid (length (nodes g))) (edges g) \<and> distinct (map pairOf (edges g)))"

definition hubFlagged :: "graph \<Rightarrow> nat" where
  "hubFlagged g = length (filter n_hub (nodes g))"

definition keyOf :: "int \<times> int \<Rightarrow> string" where
  "keyOf e = edgeKey (fst e) (snd e)"

definition stripDeg :: "node list \<Rightarrow> node list" where
  "stripDeg ns = map (\<lambda>v. v\<lparr>n_deg := 0\<rparr>) ns"

definition binv :: "nat \<Rightarrow> build \<Rightarrow> bool" where
  "binv n st \<longleftrightarrow>
     length (b_nodes st) = n \<and>
     list_all (edge_valid n) (b_edges st) \<and>
     distinct (map keyOf (b_edges st)) \<and>
     keyOf ` set (b_edges st) = b_edgeSet st \<and>
     list_all (\<lambda>p. p < n) (b_chosen st)"

definition idx_ok :: "nat \<Rightarrow> nat \<Rightarrow> nat \<Rightarrow> int list list \<Rightarrow> bool" where
  "idx_ok rows cols n idx \<longleftrightarrow>
     length idx = rows \<and>
     list_all (\<lambda>row. length row = cols \<and> list_all (\<lambda>v. v < int n) row) idx"

text \<open>What a call of \<^verbatim>\<open>addEdge\<close> leaves alone: everything but the edges and the degrees.\<close>

definition extends :: "build \<Rightarrow> build \<Rightarrow> bool" where
  "extends st st' \<longleftrightarrow>
     b_idx st' = b_idx st \<and> b_chosen st' = b_chosen st \<and>
     stripDeg (b_nodes st') = stripDeg (b_nodes st) \<and>
     prefix (b_edges st) (b_edges st')"

text \<open>Invariants of the phases, and the quantities a hub's linking step draws.\<close>

definition lat_inv :: "nat \<Rightarrow> nat \<Rightarrow> build \<Rightarrow> bool" where
  "lat_inv rows cols st \<longleftrightarrow>
     idx_ok rows cols (length (b_nodes st)) (b_idx st) \<and> b_edges st = [] \<and>
     b_edgeSet st = {} \<and> b_chosen st = [] \<and> list_all (\<lambda>v. \<not> n_hub v) (b_nodes st)"

definition hub_inv :: "build \<Rightarrow> bool" where
  "hub_inv st \<longleftrightarrow>
     distinct (b_chosen st) \<and>
     (\<forall>i < length (b_nodes st). n_hub (b_nodes st ! i) \<longleftrightarrow> i \<in> set (b_chosen st))"

definition hubCands :: "real \<Rightarrow> nat \<Rightarrow> build \<Rightarrow> (nat \<times> real) list" where
  "hubCands maxRadius hubIdx st = sort_key snd (candidates (b_nodes st) hubIdx maxRadius)"

definition nearLinks :: "build \<Rightarrow> nat" where
  "nearLinks st = 8 + fst (rng_index (b_rng st) 8)"

definition farLinks :: "build \<Rightarrow> nat" where
  "farLinks st = 2 + fst (rng_index (snd (rng_index (b_rng st) 8)) 2)"

definition hubEdges :: "nat \<Rightarrow> (nat \<times> real) list \<Rightarrow> (int \<times> int) set" where
  "hubEdges hubIdx cands = (\<lambda>c. (int hubIdx, int (fst c))) ` set cands"

definition link_inv :: "nat \<Rightarrow> build \<Rightarrow> nat \<Rightarrow> (nat \<times> real) list \<Rightarrow> build \<Rightarrow> bool" where
  "link_inv n st hubIdx cands s \<longleftrightarrow>
     binv n s \<and> extends st s \<and> set (b_edges s) \<subseteq> set (b_edges st) \<union> hubEdges hubIdx cands"












text \<open>
  Positions of the nodes, and the hub loop as a function of the generator state and
  \<^verbatim>\<open>chosen\<close> alone.
\<close>

definition posOf :: "node list \<Rightarrow> (real \<times> real) list" where
  "posOf ns = map (\<lambda>v. (n_x v, n_y v)) ns"

fun hubDraws :: "nat \<Rightarrow> nat \<Rightarrow> u32 \<times> nat list \<Rightarrow> u32 \<times> nat list" where
  "hubDraws n 0 x = x"
| "hubDraws n (Suc k) x =
     (let (p0, s1) = rng_index (fst x) n;
          (p, s2) = redraw (snd x) n p0 0 s1
      in hubDraws n k (s2, set_add p (snd x)))"

text \<open>
  One hub slot: the index it ends on, the number of redraws it used, and whether it is
  stale, that is, whether its first draw and all 60 redraws hit chosen nodes, so that
  \<^verbatim>\<open>chosen.add\<close> adds nothing. \<open>staleSlots k st\<close> counts the stale slots among the next \<open>k\<close>
  slots of the hub loop run from \<open>st\<close>.
\<close>

definition slotPick :: "build \<Rightarrow> nat" where
  "slotPick st =
     (let n = length (b_nodes st);
          (pick0, s1) = rng_index (b_rng st) n
      in fst (redraw (b_chosen st) n pick0 0 s1))"

definition slotGuard :: "build \<Rightarrow> nat" where
  "slotGuard st =
     (let n = length (b_nodes st);
          (pick0, s1) = rng_index (b_rng st) n
      in redrawGuard (b_chosen st) n pick0 0 s1)"

definition slotStale :: "build \<Rightarrow> bool" where
  "slotStale st \<longleftrightarrow> slotGuard st = 60 \<and> slotPick st \<in> set (b_chosen st)"

fun staleSlots :: "nat \<Rightarrow> build \<Rightarrow> nat" where
  "staleSlots 0 st = 0"
| "staleSlots (Suc k) st =
     (case selectHub st of
        None \<Rightarrow> 0
      | Some st' \<Rightarrow> (if slotStale st then 1 else 0) + staleSlots k st')"

text \<open>The state of the builder after the lattice loop at the viewport 2 \<times> 4.\<close>

definition lat24 :: build where
  "lat24 = \<lparr>b_rng = 581799454,
     b_nodes = [\<lparr>n_x = - (124697665713 / 4294967296), n_y = - (54168927924909 / 2147483648000), n_bx = - (124697665713 / 4294967296), n_by = - (54168927924909 / 2147483648000), n_vx = 0, n_vy = 0, n_deg = 0, n_hub = False\<rparr>,
      \<lparr>n_x = - (15907644459 / 10737418240), n_y = - (128942195616687 / 5368709120000), n_bx = - (15907644459 / 10737418240), n_by = - (128942195616687 / 5368709120000), n_vx = 0, n_vy = 0, n_deg = 0, n_hub = False\<rparr>,
      \<lparr>n_x = 18639630129 / 671088640, n_y = - (279461965642089 / 10737418240000), n_bx = 18639630129 / 671088640, n_by = - (279461965642089 / 10737418240000), n_vx = 0, n_vy = 0, n_deg = 0, n_hub = False\<rparr>,
      \<lparr>n_x = 645920224053 / 10737418240, n_y = - (268158040482597 / 10737418240000), n_bx = 645920224053 / 10737418240, n_by = - (268158040482597 / 10737418240000), n_vx = 0, n_vy = 0, n_deg = 0, n_hub = False\<rparr>,
      \<lparr>n_x = - (337066179339 / 21474836480), n_y = 1018842579909 / 536870912000, n_bx = - (337066179339 / 21474836480), n_by = 1018842579909 / 536870912000, n_vx = 0, n_vy = 0, n_deg = 0, n_hub = False\<rparr>,
      \<lparr>n_x = 283145553669 / 21474836480, n_y = 330619574367 / 671088640000, n_bx = 283145553669 / 21474836480, n_by = 330619574367 / 671088640000, n_vx = 0, n_vy = 0, n_deg = 0, n_hub = False\<rparr>,
      \<lparr>n_x = 200024106255 / 4294967296, n_y = 683568759987 / 10737418240000, n_bx = 200024106255 / 4294967296, n_by = 683568759987 / 10737418240000, n_vx = 0, n_vy = 0, n_deg = 0, n_hub = False\<rparr>,
      \<lparr>n_x = 826425682329 / 10737418240, n_y = 630741573567 / 1073741824000, n_bx = 826425682329 / 10737418240, n_by = 630741573567 / 1073741824000, n_vx = 0, n_vy = 0, n_deg = 0, n_hub = False\<rparr>,
      \<lparr>n_x = - (38780945637 / 1342177280), n_y = 145354644383313 / 5368709120000, n_bx = - (38780945637 / 1342177280), n_by = 145354644383313 / 5368709120000, n_vx = 0, n_vy = 0, n_deg = 0, n_hub = False\<rparr>,
      \<lparr>n_x = 9136273689 / 5368709120, n_y = 12808630958349 / 536870912000, n_bx = 9136273689 / 5368709120, n_by = 12808630958349 / 536870912000, n_vx = 0, n_vy = 0, n_deg = 0, n_hub = False\<rparr>,
      \<lparr>n_x = 60214937685 / 2147483648, n_y = 128243263608381 / 5368709120000, n_bx = 60214937685 / 2147483648, n_by = 128243263608381 / 5368709120000, n_vx = 0, n_vy = 0, n_deg = 0, n_hub = False\<rparr>,
      \<lparr>n_x = 1336454369877 / 21474836480, n_y = 136666563895983 / 5368709120000, n_bx = 1336454369877 / 21474836480, n_by = 136666563895983 / 5368709120000, n_vx = 0, n_vy = 0, n_deg = 0, n_hub = False\<rparr>,
      \<lparr>n_x = - (139835532237 / 10737418240), n_y = 35316445723797 / 671088640000, n_bx = - (139835532237 / 10737418240), n_by = 35316445723797 / 671088640000, n_vx = 0, n_vy = 0, n_deg = 0, n_hub = False\<rparr>,
      \<lparr>n_x = 39991306389 / 2684354560, n_y = 563192877171801 / 10737418240000, n_bx = 39991306389 / 2684354560, n_by = 563192877171801 / 10737418240000, n_vx = 0, n_vy = 0, n_deg = 0, n_hub = False\<rparr>,
      \<lparr>n_x = 24740399493 / 536870912, n_y = 142627620849789 / 2684354560000, n_bx = 24740399493 / 536870912, n_by = 142627620849789 / 2684354560000, n_vx = 0, n_vy = 0, n_deg = 0, n_hub = False\<rparr>,
      \<lparr>n_x = 1649025265209 / 21474836480, n_y = 269805918919173 / 5368709120000, n_bx = 1649025265209 / 21474836480, n_by = 269805918919173 / 5368709120000, n_vx = 0, n_vy = 0, n_deg = 0, n_hub = False\<rparr>],
     b_idx = [[0, 1, 2, 3], [4, 5, 6, 7], [8, 9, 10, 11], [12, 13, 14, 15]],
     b_edgeSet = {},
     b_edges = [],
     b_chosen = []\<rparr>"

text \<open>C3 as the specification states it.\<close>

definition hubCountExact :: "graph \<Rightarrow> bool" where
  "hubCountExact g \<longleftrightarrow> hubFlagged g = hubCountOf (length (nodes g))"

text \<open>
  C5 in the words of the specification: the acceleration, the update of one node and the
  settling metric.
\<close>

definition accelSpec :: "bool \<Rightarrow> real \<Rightarrow> sim \<Rightarrow> node \<Rightarrow> real \<times> real" where
  "accelSpec allowInteraction nowMs sm n =
     ((n_bx n - n_x n) * 8.8 + fst (pointerAccel allowInteraction nowMs sm n),
      (n_by n - n_y n) * 8.8 + snd (pointerAccel allowInteraction nowMs sm n))"

definition updateSpec :: "real \<Rightarrow> bool \<Rightarrow> real \<Rightarrow> sim \<Rightarrow> node \<Rightarrow> node" where
  "updateSpec dt allowInteraction nowMs sm n =
     (let a = accelSpec allowInteraction nowMs sm n;
          damping = exp (- 6.4 * dt);
          vx' = (n_vx n + fst a * dt) * damping;
          vy' = (n_vy n + snd a * dt) * damping
      in n\<lparr>n_x := n_x n + vx' * dt, n_y := n_y n + vy' * dt, n_vx := vx', n_vy := vy'\<rparr>)"

definition meanSpeed :: "node list \<Rightarrow> real" where
  "meanSpeed ns = (\<Sum>n\<leftarrow>ns. \<bar>n_vx n\<bar> + \<bar>n_vy n\<bar>) / real (length ns)"

text \<open>The range \<^verbatim>\<open>buildGraph\<close> keeps \<^verbatim>\<open>lastSpacing\<close> in.\<close>

definition spacing_ok :: "sim \<Rightarrow> bool" where
  "spacing_ok sm \<longleftrightarrow> 30 \<le> lastSpacing sm \<and> lastSpacing sm \<le> 46"

text \<open>What \<^verbatim>\<open>ensureRun\<close> must leave alone when the loop is running.\<close>

definition sched_same :: "sim \<Rightarrow> sim \<Rightarrow> bool" where
  "sched_same sm sm' \<longleftrightarrow>
     running sm' = running sm \<and> raf sm' = raf sm \<and> pending sm' = pending sm \<and>
     nextHandle sm' = nextHandle sm"

text \<open>Concrete states and nodes on which the theorems are instantiated.\<close>

definition node10 :: node where
  "node10 = \<lparr>n_x = 10, n_y = 0, n_bx = 0, n_by = 0, n_vx = 0, n_vy = 0, n_deg = 0, n_hub = False\<rparr>"

definition sim10 :: sim where
  "sim10 = sim0\<lparr>graph := \<lparr>nodes = [node10], edges = []\<rparr>\<rparr>"

definition simPointer :: sim where
  "simPointer = sim0\<lparr>mouseX := 96, mouseY := 0, mouseActive := True, mouseMoveAt := 0\<rparr>"

definition nodeNear :: node where
  "nodeNear = \<lparr>n_x = 0, n_y = 0, n_bx = 0, n_by = 0, n_vx = 0, n_vy = 0, n_deg = 0, n_hub = False\<rparr>"

definition nodeFar :: node where
  "nodeFar = \<lparr>n_x = - 288, n_y = 0, n_bx = 0, n_by = 0, n_vx = 0, n_vy = 0, n_deg = 0, n_hub = True\<rparr>"

definition simRunning :: sim where
  "simRunning = sim0\<lparr>running := True, raf := 1, pending := [1], nextHandle := 2\<rparr>"

definition envW :: env where
  "envW = \<lparr>innerWidth = 1280, innerHeight = 720, interaction = True, perfNow = 0\<rparr>"

text \<open>
  The quantities of the settling argument: the damping factor at \<open>dt = 0.016\<close>, the
  region a coordinate and its velocity stay in, and the contraction factor.
\<close>

definition damp16 :: real where
  "damp16 = exp (- 6.4 * 0.016)"

definition osc :: "real \<Rightarrow> real \<Rightarrow> bool" where
  "osc u v \<longleftrightarrow> (0 \<le> u \<and> v \<le> 0 \<and> - 2 * u \<le> v) \<or> (u \<le> 0 \<and> 0 \<le> v \<and> v \<le> - 2 * u)"

definition settling :: "real \<Rightarrow> node \<Rightarrow> bool" where
  "settling r n \<longleftrightarrow>
     osc (n_x n - n_bx n) (n_vx n) \<and> osc (n_y n - n_by n) (n_vy n) \<and>
     \<bar>n_x n - n_bx n\<bar> \<le> r \<and> \<bar>n_y n - n_by n\<bar> \<le> r"

definition rho :: real where
  "rho = 1 - 0.016 * (8.8 * 0.016) * 0.8976"

section \<open>Properties of the generator\<close>

lemma xorshift_zero: "xorshift 0 = 0"
  by (simp add: xorshift_def)

lemma rng_next_zero: "rng_next 0 = (0, 0)"
  by (simp add: rng_next_def xorshift_zero)

lemma rng_state_zero: "rng_state k 0 = 0"
  by (induction k) (simp_all add: rng_next_zero)

lemma rng_next_range: "0 \<le> fst (rng_next s) \<and> fst (rng_next s) < 1"
proof -
  have "unat (xorshift s) < 2 ^ 32"
    using unsigned_less [of "xorshift s", where 'a = nat] by simp
  then have "real (unat (xorshift s)) < real (2 ^ 32)"
    by (rule less_imp_of_nat_less)
  then have "real (unat (xorshift s)) / 4294967296 < 1"
    by simp
  moreover have "0 \<le> real (unat (xorshift s)) / 4294967296"
    by (rule divide_nonneg_pos) (rule of_nat_0_le_iff, simp)
  ultimately show ?thesis
    unfolding rng_next_def Let_def fst_conv by blast
qed

text \<open>
  C10. A seed whose unsigned 32-bit value is 0 makes the generator constant: after any
  number of calls the state is still 0 and the call returns exactly 0 (a value of
  \<open>[0,1)\<close>). The bit-mix of \<^verbatim>\<open>buildGraph\<close> produces such a seed, for instance at the
  viewport 40454 \<times> 71917.
\<close>

theorem makeRng_zero_seed_constant:
  assumes "seed mod 4294967296 = 0"
  shows "rng_state k (makeRng seed) = 0
       \<and> rng_next (rng_state k (makeRng seed)) = (0, 0)
       \<and> rng_output k (makeRng seed) = 0
       \<and> 0 \<le> rng_output k (makeRng seed) \<and> rng_output k (makeRng seed) < 1
       \<and> seedOf 40454 71917 mod 4294967296 = 0"
proof -
  have "(word_of_int seed :: u32) = word_of_int (seed mod 2 ^ 32)"
    by (simp add: word_of_int_eq_iff take_bit_eq_mod)
  with assms have "makeRng seed = 0"
    by (simp add: makeRng_def)
  moreover have "seedOf 40454 71917 = 0"
    by (simp add: seedOf_def js_mul_def round53_def)
  ultimately show ?thesis
    by (simp add: rng_state_zero rng_next_zero rng_output_def)
qed

theorem makeRng_zero_seed_constant_witness:
  "(4294967296::int) mod 4294967296 = 0
   \<and> rng_state 3 (makeRng 4294967296) = 0
   \<and> rng_next (rng_state 3 (makeRng 4294967296)) = (0, 0)
   \<and> rng_output 3 (makeRng 4294967296) = 0
   \<and> seedOf 40454 71917 mod 4294967296 = 0"
  using makeRng_zero_seed_constant [of 4294967296 3] by (simp add: rng_next_zero)

section \<open>Properties of the graph builder\<close>

lemma foldM_invariant:
  assumes "I s" and "\<And>x s. x \<in> set xs \<Longrightarrow> I s \<Longrightarrow> \<exists>s'. f x s = Some s' \<and> I s'"
  shows "\<exists>s'. foldM f xs s = Some s' \<and> I s'"
  using assms
proof (induction xs arbitrary: s)
  case Nil
  then show ?case by simp
next
  case (Cons x xs)
  from Cons.prems obtain s1 where s1: "f x s = Some s1" "I s1"
    by (meson list.set_intros(1))
  have "\<exists>s'. foldM f xs s1 = Some s' \<and> I s'"
    by (rule Cons.IH [OF s1(2)]) (simp add: Cons.prems(2))
  with s1 show ?case by simp
qed

lemma fold_invariant:
  assumes "I s" and "\<And>x s. x \<in> set xs \<Longrightarrow> I s \<Longrightarrow> I (f x s)"
  shows "I (fold f xs s)"
  using assms by (induction xs arbitrary: s) simp_all

lemma in_cells: "(r, c) \<in> set (cells rows cols) \<longleftrightarrow> r < rows \<and> c < cols"
  by (auto simp: cells_def)

lemma length_cells: "length (cells rows cols) = rows * cols"
  by (simp add: cells_def)

lemma edgeKey_commute: "edgeKey a b = edgeKey b a"
  by (simp add: edgeKey_def)

lemma distinct_map_coarser:
  assumes "distinct (map f xs)" and "\<And>x y. g x = g y \<Longrightarrow> f x = f y"
  shows "distinct (map g xs)"
proof -
  from assms(1) have d: "distinct xs" and i: "inj_on f (set xs)"
    by (simp_all add: distinct_map)
  have "inj_on g (set xs)"
    by (rule inj_onI) (meson assms(2) i inj_onD)
  with d show ?thesis by (simp add: distinct_map)
qed

text \<open>The range of indices drawn by the generator.\<close>

lemma rng_index_bound: "0 < m \<Longrightarrow> fst (rng_index s m) < m"
proof -
  assume m: "0 < m"
  define u where "u = fst (rng_next s)"
  have u: "0 \<le> u" "u < 1" using rng_next_range [of s] by (simp_all add: u_def)
  have "u * real m < real m" using u m by simp
  then have "\<lfloor>u * real m\<rfloor> < int m" by (simp add: floor_less_iff)
  moreover have "0 \<le> \<lfloor>u * real m\<rfloor>" using u by simp
  ultimately have "nat \<lfloor>u * real m\<rfloor> < m" by linarith
  then show ?thesis
    by (simp add: rng_index_def u_def split_beta Let_def)
qed

lemma redraw_bound: "0 < n \<Longrightarrow> pick < n \<Longrightarrow> fst (redraw chosen n pick guard s) < n"
proof (induction chosen n pick guard s rule: redraw.induct)
  case (1 chosen n pick guard s)
  show ?case
  proof (cases "pick \<in> set chosen \<and> guard < 60")
    case True
    obtain p' s' where ps: "rng_index s n = (p', s')" by (cases "rng_index s n")
    have "p' < n" using rng_index_bound [OF "1.prems"(1), of s] ps by simp
    then have "fst (redraw chosen n p' (guard + 1) s') < n"
      by (rule "1.IH" [OF True ps [symmetric] refl "1.prems"(1)])
    moreover have "redraw chosen n pick guard s = redraw chosen n p' (guard + 1) s'"
      using True ps by (subst redraw.simps) simp
    ultimately show ?thesis by simp
  next
    case False
    then have "redraw chosen n pick guard s = (pick, s)"
      by (subst redraw.simps) auto
    with "1.prems" show ?thesis by simp
  qed
qed

lemma stripDeg_length: "stripDeg ns = stripDeg ns' \<Longrightarrow> length ns = length ns'"
  unfolding stripDeg_def by (rule map_eq_imp_length_eq)

lemma stripDeg_bumpDeg: "stripDeg (bumpDeg i ns) = stripDeg ns"
proof (cases "i < length ns")
  case True
  then show ?thesis
    by (simp add: stripDeg_def bumpDeg_def map_update list_update_same_conv)
next
  case False
  then have "length ns \<le> i" by simp
  then show ?thesis by (simp add: bumpDeg_def list_update_beyond)
qed

lemma length_bumpDeg: "length (bumpDeg i ns) = length ns"
  by (simp add: bumpDeg_def)

lemma addEdge_cases:
  assumes "a < int (length (b_nodes st))" "b < int (length (b_nodes st))"
  shows "addEdge a b st = Some st \<or>
         (0 \<le> a \<and> 0 \<le> b \<and> a \<noteq> b \<and> edgeKey a b \<notin> b_edgeSet st \<and>
          addEdge a b st =
            Some (st\<lparr>b_edgeSet := insert (edgeKey a b) (b_edgeSet st),
                      b_edges := b_edges st @ [(a, b)],
                      b_nodes := bumpDeg (nat b) (bumpDeg (nat a) (b_nodes st))\<rparr>))"
  using assms by (auto simp: addEdge_def Let_def)

lemma extends_refl: "extends st st"
  by (simp add: extends_def)

lemma extends_trans: "extends s1 s2 \<Longrightarrow> extends s2 s3 \<Longrightarrow> extends s1 s3"
  by (auto simp: extends_def)

lemma addEdge_binv:
  assumes inv: "binv n st" and a: "a < int n" and b: "b < int n"
  shows "\<exists>st'. addEdge a b st = Some st' \<and> binv n st' \<and> extends st st' \<and>
               b_rng st' = b_rng st \<and>
               (b_edges st' = b_edges st \<or> b_edges st' = b_edges st @ [(a, b)])"
proof -
  from inv have len: "length (b_nodes st) = n" by (simp add: binv_def)
  from addEdge_cases [of a st b] a b len
  consider (same) "addEdge a b st = Some st"
    | (new) "0 \<le> a" "0 \<le> b" "a \<noteq> b" "edgeKey a b \<notin> b_edgeSet st"
        "addEdge a b st =
            Some (st\<lparr>b_edgeSet := insert (edgeKey a b) (b_edgeSet st),
                      b_edges := b_edges st @ [(a, b)],
                      b_nodes := bumpDeg (nat b) (bumpDeg (nat a) (b_nodes st))\<rparr>)"
    by blast
  then show ?thesis
  proof cases
    case same
    with inv show ?thesis by (simp add: extends_refl)
  next
    case new
    let ?st' = "st\<lparr>b_edgeSet := insert (edgeKey a b) (b_edgeSet st),
                      b_edges := b_edges st @ [(a, b)],
                      b_nodes := bumpDeg (nat b) (bumpDeg (nat a) (b_nodes st))\<rparr>"
    have "keyOf (a, b) \<notin> keyOf ` set (b_edges st)"
      using new(4) inv by (auto simp: binv_def keyOf_def)
    then have "binv n ?st'"
      using inv new(1-3) a b
      by (auto simp: binv_def length_bumpDeg edge_valid_def keyOf_def)
    moreover have "extends st ?st'"
      by (simp add: extends_def stripDeg_bumpDeg)
    ultimately show ?thesis using new(5) by simp
  qed
qed

lemma foldM_count:
  fixes m :: "'s \<Rightarrow> nat"
  assumes "I s"
    and "\<And>x s. x \<in> set xs \<Longrightarrow> I s \<Longrightarrow> \<exists>s'. f x s = Some s' \<and> I s' \<and> m s' \<le> m s + c"
  shows "\<exists>s'. foldM f xs s = Some s' \<and> I s' \<and> m s' \<le> m s + length xs * c"
  using assms
proof (induction xs arbitrary: s)
  case Nil
  then show ?case by simp
next
  case (Cons x xs)
  from Cons.prems obtain s1 where s1: "f x s = Some s1" "I s1" "m s1 \<le> m s + c"
    by (meson list.set_intros(1))
  have "\<exists>s'. foldM f xs s1 = Some s' \<and> I s' \<and> m s' \<le> m s1 + length xs * c"
    by (rule Cons.IH [OF s1(2)]) (simp add: Cons.prems(2))
  then obtain s' where "foldM f xs s1 = Some s'" "I s'" "m s' \<le> m s1 + length xs * c"
    by blast
  with s1 show ?case by simp
qed

subsection \<open>The lattice\<close>

lemma place_fields:
  "b_edges (place sp dy rc st) = b_edges st"
  "b_edgeSet (place sp dy rc st) = b_edgeSet st"
  "b_chosen (place sp dy rc st) = b_chosen st"
  "length (b_nodes (place sp dy rc st)) = Suc (length (b_nodes st))"
  "list_all (\<lambda>v. \<not> n_hub v) (b_nodes (place sp dy rc st)) = list_all (\<lambda>v. \<not> n_hub v) (b_nodes st)"
  "b_idx (place sp dy rc st) =
     (b_idx st)[fst rc := (b_idx st ! fst rc)[snd rc := int (length (b_nodes st))]]"
  by (simp_all add: place_def split_beta Let_def)

lemma idx_ok_update:
  assumes "idx_ok rows cols n idx"
  shows "idx_ok rows cols (Suc n) (idx[r := (idx ! r)[c := int n]])"
proof -
  from assms have len: "length idx = rows"
    and rows: "\<And>row. row \<in> set idx \<Longrightarrow> length row = cols"
    and ents: "\<And>row v. row \<in> set idx \<Longrightarrow> v \<in> set row \<Longrightarrow> v < int n"
    by (auto simp: idx_ok_def list_all_iff)
  have "length row = cols \<and> (\<forall>v\<in>set row. v < int (Suc n))"
    if "row \<in> set (idx[r := (idx ! r)[c := int n]])" for row
  proof (cases "row \<in> set idx")
    case True
    then show ?thesis using rows ents by fastforce
  next
    case False
    with that have eq: "row = (idx ! r)[c := int n]"
      using set_update_subset_insert [of idx r "(idx ! r)[c := int n]"] by auto
    have "r < length idx"
    proof (rule ccontr)
      assume "\<not> r < length idx"
      then have "idx[r := (idx ! r)[c := int n]] = idx" by (simp add: list_update_beyond)
      with that False show False by simp
    qed
    then have mem: "idx ! r \<in> set idx" by simp
    have "v < int (Suc n)" if "v \<in> set row" for v
    proof -
      from that eq have "v = int n \<or> v \<in> set (idx ! r)"
        using set_update_subset_insert [of "idx ! r" c "int n"] by auto
      then show ?thesis using ents [OF mem] by fastforce
    qed
    then show ?thesis using eq rows [OF mem] by simp
  qed
  then show ?thesis using len by (simp add: idx_ok_def list_all_iff)
qed

lemma idx_ok_replicate: "idx_ok rows cols 0 (replicate rows (replicate cols (- 1)))"
  by (simp add: idx_ok_def list_all_iff)

lemma place_lat_inv: "lat_inv rows cols st \<Longrightarrow> lat_inv rows cols (place sp dy rc st)"
  by (simp add: lat_inv_def place_fields idx_ok_update)

lemma lattice_lat_inv: "lat_inv (rowsOf w h) (colsOf w) (lattice w h)"
  unfolding lattice_def
proof (rule fold_invariant)
  show "lat_inv (rowsOf w h) (colsOf w) (build0 (makeRng (seedOf w h)) (rowsOf w h) (colsOf w))"
    by (simp add: lat_inv_def build0_def idx_ok_replicate)
qed (rule place_lat_inv)

lemma length_fold_place:
  "length (b_nodes (fold (place sp dy) xs st)) = length (b_nodes st) + length xs"
  by (induction xs arbitrary: st) (simp_all add: place_fields)

lemma length_lattice: "length (b_nodes (lattice w h)) = rowsOf w h * colsOf w"
  by (simp add: lattice_def length_fold_place length_cells build0_def)

lemma js_round_nonneg: "0 \<le> v \<Longrightarrow> 0 \<le> js_round v"
  by (simp add: js_round_def)

lemma spacingOf_range: "30 \<le> spacingOf w \<and> spacingOf w \<le> 46"
  by (simp add: spacingOf_def)

lemma colsOf_ge: "3 \<le> colsOf w"
proof -
  have "0 \<le> real w / spacingOf w"
    using spacingOf_range [of w] by simp
  then have "0 \<le> \<lceil>real w / spacingOf w\<rceil>" by linarith
  then show ?thesis unfolding colsOf_def by linarith
qed

lemma rowsOf_ge: "3 \<le> rowsOf w h"
proof -
  have "0 < dyOf w" using spacingOf_range [of w] by (simp add: dyOf_def)
  then have "0 \<le> real h / dyOf w" by simp
  then have "0 \<le> \<lceil>real h / dyOf w\<rceil>" by linarith
  then show ?thesis unfolding rowsOf_def by linarith
qed

lemma lattice_nonempty: "0 < length (b_nodes (lattice w h))"
proof -
  have "3 * 3 \<le> rowsOf w h * colsOf w"
    by (rule mult_le_mono [OF rowsOf_ge colsOf_ge])
  then have "0 < rowsOf w h * colsOf w" by linarith
  then show ?thesis unfolding length_lattice .
qed

lemma lattice_binv: "binv (length (b_nodes (lattice w h))) (lattice w h)"
  using lattice_lat_inv [of w h] by (simp add: lat_inv_def binv_def)

subsection \<open>The mesh\<close>

lemma idx_entry: "idx_ok rows cols n idx \<Longrightarrow> r < rows \<Longrightarrow> c < cols \<Longrightarrow> idx ! r ! c < int n"
  by (simp add: idx_ok_def list_all_length)

lemma idx_at_bound:
  assumes "idx_ok rows cols n idx" "r < rows"
  shows "idx_at idx r c < int n"
proof (cases "0 \<le> c \<and> nat c < length (idx ! r)")
  case True
  moreover from assms have "length (idx ! r) = cols"
    by (simp add: idx_ok_def list_all_length)
  ultimately show ?thesis
    using idx_entry [OF assms, of "nat c"] by (simp add: idx_at_def)
next
  case False
  then show ?thesis by (auto simp: idx_at_def)
qed

lemma meshCell_binv:
  assumes inv: "binv n st" and idx: "idx_ok rows cols n (b_idx st)"
    and r: "r < rows" and c: "c < cols"
  shows "\<exists>st'. meshCell rows (r, c) st = Some st' \<and> binv n st' \<and> extends st st' \<and>
               b_rng st' = b_rng st"
proof -
  let ?idx = "b_idx st"
  let ?a = "?idx ! r ! c"
  have a: "?a < int n" by (rule idx_entry [OF idx r c])
  obtain st1 where st1: "addEdge ?a (idx_at ?idx r (int c + 1)) st = Some st1"
      "binv n st1" "extends st st1" "b_rng st1 = b_rng st"
    using addEdge_binv [OF inv a idx_at_bound [OF idx r]] by blast
  show ?thesis
  proof (cases "r + 1 < rows")
    case False
    with st1 show ?thesis by (simp add: meshCell_def)
  next
    case True
    obtain st2 where st2: "addEdge ?a (idx_at ?idx (r + 1) (int c)) st1 = Some st2"
        "binv n st2" "extends st1 st2" "b_rng st2 = b_rng st1"
      using addEdge_binv [OF st1(2) a idx_at_bound [OF idx True]] by blast
    obtain st3 where st3: "addEdge ?a (idx_at ?idx (r + 1) (int c - 1)) st2 = Some st3"
        "binv n st3" "extends st2 st3" "b_rng st3 = b_rng st2"
      using addEdge_binv [OF st2(2) a idx_at_bound [OF idx True]] by blast
    obtain st4 where st4: "addEdge ?a (idx_at ?idx (r + 1) (int c + 1)) st2 = Some st4"
        "binv n st4" "extends st2 st4" "b_rng st4 = b_rng st2"
      using addEdge_binv [OF st2(2) a idx_at_bound [OF idx True]] by blast
    have e3: "extends st st3" and e4: "extends st st4"
      using st1(3) st2(3) st3(3) st4(3) by (blast intro: extends_trans)+
    show ?thesis
    proof (cases "r mod 2 = 0")
      case even: True
      with True st1 st2 st3 e3 show ?thesis by (simp add: meshCell_def)
    next
      case odd: False
      with True st1 st2 st4 e4 show ?thesis by (simp add: meshCell_def)
    qed
  qed
qed

lemma meshed_binv:
  "\<exists>st. meshed w h = Some st \<and> binv (length (b_nodes (lattice w h))) st \<and>
        extends (lattice w h) st \<and> b_rng st = b_rng (lattice w h)"
proof -
  let ?st0 = "lattice w h"
  let ?n = "length (b_nodes ?st0)"
  let ?I = "\<lambda>st. binv ?n st \<and> extends ?st0 st \<and> b_rng st = b_rng ?st0"
  have idx0: "idx_ok (rowsOf w h) (colsOf w) ?n (b_idx ?st0)"
    using lattice_lat_inv [of w h] by (simp add: lat_inv_def)
  have "\<exists>st'. foldM (meshCell (rowsOf w h)) (cells (rowsOf w h) (colsOf w)) ?st0 = Some st'
              \<and> ?I st'"
  proof (rule foldM_invariant [where I = ?I])
    show "?I ?st0" by (simp add: lattice_binv extends_refl)
  next
    fix x st
    assume x: "x \<in> set (cells (rowsOf w h) (colsOf w))" and I: "?I st"
    obtain r c where rc: "x = (r, c)" by (cases x)
    with x have r: "r < rowsOf w h" and c: "c < colsOf w" by (simp_all add: in_cells)
    from I have "b_idx st = b_idx ?st0" by (simp add: extends_def)
    with idx0 have idx: "idx_ok (rowsOf w h) (colsOf w) ?n (b_idx st)" by simp
    from I have inv: "binv ?n st" by simp
    from meshCell_binv [OF inv idx r c] I rc
    show "\<exists>s'. meshCell (rowsOf w h) x st = Some s' \<and> ?I s'"
      by (auto intro: extends_trans)
  qed
  then show ?thesis by (simp add: meshed_def)
qed

subsection \<open>Hub selection\<close>

lemma selectHub_result:
  assumes "0 < length (b_nodes st)"
  shows "\<exists>pick s2. pick < length (b_nodes st) \<and>
           selectHub st =
             Some (st\<lparr>b_rng := s2, b_chosen := set_add pick (b_chosen st),
                       b_nodes := (b_nodes st)[pick := (b_nodes st ! pick)\<lparr>n_hub := True\<rparr>]\<rparr>)"
proof -
  let ?n = "length (b_nodes st)"
  obtain p0 s1 where p0: "rng_index (b_rng st) ?n = (p0, s1)"
    by (cases "rng_index (b_rng st) ?n")
  obtain p s2 where p: "redraw (b_chosen st) ?n p0 0 s1 = (p, s2)"
    by (cases "redraw (b_chosen st) ?n p0 0 s1")
  have "p0 < ?n" using rng_index_bound [OF assms, of "b_rng st"] p0 by simp
  then have "p < ?n" using redraw_bound [OF assms, of p0 "b_chosen st" 0 s1] p by simp
  moreover from this have "selectHub st =
             Some (st\<lparr>b_rng := s2, b_chosen := set_add p (b_chosen st),
                       b_nodes := (b_nodes st)[p := (b_nodes st ! p)\<lparr>n_hub := True\<rparr>]\<rparr>)"
    using p0 p by (simp add: selectHub_def Let_def)
  ultimately show ?thesis by blast
qed

lemma set_add_set: "set (set_add p xs) = insert p (set xs)"
  by (auto simp: set_add_def)

lemma set_add_distinct: "distinct xs \<Longrightarrow> distinct (set_add p xs)"
  by (simp add: set_add_def)

lemma set_add_length: "length (set_add p xs) \<le> length xs + 1"
  by (simp add: set_add_def)

lemma set_add_nonempty: "set_add p xs \<noteq> []"
  by (auto simp: set_add_def)

lemma selectHub_binv:
  assumes inv: "binv n st" and n: "0 < n" and hub: "hub_inv st"
  shows "\<exists>st'. selectHub st = Some st' \<and> binv n st' \<and> hub_inv st' \<and>
               b_chosen st' \<noteq> [] \<and> length (b_chosen st') \<le> length (b_chosen st) + 1"
proof -
  from inv have len: "length (b_nodes st) = n" by (simp add: binv_def)
  with n selectHub_result [of st] obtain pick s2 where pick: "pick < n"
    and res: "selectHub st =
             Some (st\<lparr>b_rng := s2, b_chosen := set_add pick (b_chosen st),
                       b_nodes := (b_nodes st)[pick := (b_nodes st ! pick)\<lparr>n_hub := True\<rparr>]\<rparr>)"
    by auto
  let ?st' = "st\<lparr>b_rng := s2, b_chosen := set_add pick (b_chosen st),
                       b_nodes := (b_nodes st)[pick := (b_nodes st ! pick)\<lparr>n_hub := True\<rparr>]\<rparr>"
  have "binv n ?st'"
    using inv pick by (auto simp: binv_def list_all_iff set_add_set)
  moreover have "hub_inv ?st'"
    using hub pick len
    by (auto simp: hub_inv_def set_add_set set_add_distinct nth_list_update)
  ultimately show ?thesis
    using res set_add_length [of pick "b_chosen st"] by (simp add: set_add_nonempty)
qed

lemma selectHubs_binv:
  assumes inv: "binv n st" and n: "0 < n" and hub: "hub_inv st" and c0: "b_chosen st = []"
  shows "\<exists>st'. selectHubs st = Some st' \<and> binv n st' \<and> hub_inv st' \<and>
               b_chosen st' \<noteq> [] \<and> length (b_chosen st') \<le> hubCountOf n"
proof -
  let ?k = "hubCountOf n"
  let ?I = "\<lambda>s. binv n s \<and> hub_inv s \<and> b_chosen s \<noteq> []"
  have k: "[0..<?k] = 0 # [1..<?k]"
    by (simp add: hubCountOf_def upt_conv_Cons)
  obtain st1 where st1: "selectHub st = Some st1" "binv n st1" "hub_inv st1"
      "b_chosen st1 \<noteq> []" "length (b_chosen st1) \<le> 1"
    using selectHub_binv [OF inv n hub] c0 by auto
  have "\<exists>s'. foldM (\<lambda>_. selectHub) [1..<?k] st1 = Some s' \<and> ?I s' \<and>
          length (b_chosen s') \<le> length (b_chosen st1) + length [1..<?k] * 1"
  proof (rule foldM_count [where I = ?I and m = "\<lambda>s. length (b_chosen s)"])
    show "?I st1" using st1 by simp
  next
    fix x s
    assume "?I s"
    then show "\<exists>s'. selectHub s = Some s' \<and> ?I s' \<and> length (b_chosen s') \<le> length (b_chosen s) + 1"
      using selectHub_binv [OF _ n, of s] by blast
  qed
  then obtain s' where s': "foldM (\<lambda>_. selectHub) [1..<?k] st1 = Some s'" "?I s'"
      "length (b_chosen s') \<le> length (b_chosen st1) + (?k - 1)"
    by auto
  have "1 \<le> ?k" by (simp add: hubCountOf_def)
  with s'(3) st1(5) have "length (b_chosen s') \<le> ?k" by linarith
  moreover have "selectHubs st = Some s'"
    using inv st1(1) s'(1) k by (simp add: selectHubs_def binv_def)
  ultimately show ?thesis using s'(2) by simp
qed

lemma hub_inv_count:
  assumes "hub_inv st" and "list_all (\<lambda>p. p < length (b_nodes st)) (b_chosen st)"
  shows "length (filter n_hub (b_nodes st)) = length (b_chosen st)"
proof -
  have "{i. i < length (b_nodes st) \<and> n_hub (b_nodes st ! i)} = set (b_chosen st)"
    using assms by (auto simp: hub_inv_def list_all_iff)
  then have "length (filter n_hub (b_nodes st)) = card (set (b_chosen st))"
    by (simp add: length_filter_conv_card)
  also have "\<dots> = length (b_chosen st)"
    using assms(1) by (simp add: hub_inv_def distinct_card)
  finally show ?thesis .
qed

lemma stripDeg_hubs:
  assumes "stripDeg ns = stripDeg ns'"
  shows "length (filter n_hub ns) = length (filter n_hub ns')"
proof -
  have "map n_hub ns = map n_hub (stripDeg ns)" for ns
    by (simp add: stripDeg_def)
  with assms have "map n_hub ns = map n_hub ns'" by metis
  then have "length (filter (\<lambda>b. b) (map n_hub ns)) = length (filter (\<lambda>b. b) (map n_hub ns'))"
    by simp
  then show ?thesis by (simp add: filter_map o_def)
qed

subsection \<open>Hub linking\<close>

lemma candidates_bound: "c \<in> set (candidates ns hubIdx R) \<Longrightarrow> fst c < length ns"
  by (auto simp: candidates_def Let_def)

lemma hubCands_bound: "c \<in> set (hubCands R hubIdx st) \<Longrightarrow> fst c < length (b_nodes st)"
  by (simp add: hubCands_def candidates_bound)

lemma binv_rng: "binv n (st\<lparr>b_rng := s\<rparr>) = binv n st"
  by (simp add: binv_def)

lemma extends_rng: "extends st (st\<lparr>b_rng := s\<rparr>)"
  by (simp add: extends_def)

lemma link_inv_start: "binv n st \<Longrightarrow> link_inv n st hubIdx cands (st\<lparr>b_rng := s\<rparr>)"
  by (simp add: link_inv_def binv_rng extends_rng)

lemma link_inv_rng: "link_inv n st hubIdx cands s \<Longrightarrow> link_inv n st hubIdx cands (s\<lparr>b_rng := r\<rparr>)"
  by (simp add: link_inv_def binv_rng extends_def)

lemma addEdge_link_inv:
  assumes I: "link_inv n st hubIdx cands s" and h: "hubIdx < n"
    and c: "c \<in> set cands" and cn: "fst c < n"
  shows "\<exists>s'. addEdge (int hubIdx) (int (fst c)) s = Some s' \<and> link_inv n st hubIdx cands s' \<and>
              b_rng s' = b_rng s \<and> length (b_edges s') \<le> length (b_edges s) + 1"
proof -
  from I have inv: "binv n s" by (simp add: link_inv_def)
  obtain s' where s': "addEdge (int hubIdx) (int (fst c)) s = Some s'" "binv n s'"
      "extends s s'" "b_rng s' = b_rng s"
      "b_edges s' = b_edges s \<or> b_edges s' = b_edges s @ [(int hubIdx, int (fst c))]"
    using addEdge_binv [OF inv, of "int hubIdx" "int (fst c)"] h cn by auto
  have "(int hubIdx, int (fst c)) \<in> hubEdges hubIdx cands"
    using c by (auto simp: hubEdges_def)
  with s'(5) I have "set (b_edges s') \<subseteq> set (b_edges st) \<union> hubEdges hubIdx cands"
    by (auto simp: link_inv_def)
  moreover have "extends st s'" using I s'(3) by (auto simp: link_inv_def intro: extends_trans)
  moreover have "length (b_edges s') \<le> length (b_edges s) + 1" using s'(5) by auto
  ultimately show ?thesis using s' by (simp add: link_inv_def)
qed

lemma farLink_link_inv:
  assumes I: "link_inv n st hubIdx cands s" and h: "hubIdx < n"
    and cn: "\<And>c. c \<in> set cands \<Longrightarrow> fst c < n"
  shows "\<exists>s'. farLink hubIdx cands s = Some s' \<and> link_inv n st hubIdx cands s' \<and>
              length (b_edges s') \<le> length (b_edges s) + (if cands = [] then 0 else 1)"
proof -
  obtain p s1 where p: "rng_index (b_rng s) (length cands) = (p, s1)"
    by (cases "rng_index (b_rng s) (length cands)")
  let ?t = "int (length cands) - 1 - int p"
  let ?s1 = "s\<lparr>b_rng := s1\<rparr>"
  have I1: "link_inv n st hubIdx cands ?s1" by (rule link_inv_rng [OF I])
  show ?thesis
  proof (cases "0 \<le> ?t \<and> ?t < int (length cands)")
    case True
    then have mem: "cands ! nat ?t \<in> set cands" by simp
    from True have ne: "cands \<noteq> []" by auto
    from addEdge_link_inv [OF I1 h mem cn [OF mem]] True p ne
    show ?thesis by (auto simp: farLink_def Let_def)
  next
    case False
    with I1 p show ?thesis by (auto simp: farLink_def Let_def)
  qed
qed

lemma linkHub_binv:
  assumes inv: "binv n st" and h: "hubIdx < n"
  shows "\<exists>st'. linkHub R hubIdx st = Some st' \<and> binv n st' \<and> extends st st' \<and>
     set (b_edges st') \<subseteq> set (b_edges st) \<union> hubEdges hubIdx (hubCands R hubIdx st) \<and>
     length (b_edges st') \<le> length (b_edges st)
        + min (nearLinks st) (length (hubCands R hubIdx st))
        + (if hubCands R hubIdx st = [] then 0 else farLinks st)"
proof -
  let ?C = "hubCands R hubIdx st"
  let ?I = "link_inv n st hubIdx ?C"
  from inv have len: "length (b_nodes st) = n" by (simp add: binv_def)
  have cn: "fst c < n" if "c \<in> set ?C" for c
    using hubCands_bound [OF that] len by simp
  obtain l s1 where l: "rng_index (b_rng st) 8 = (l, s1)"
    by (cases "rng_index (b_rng st) 8")
  let ?near = "[0..<min (8 + l) (length ?C)]"
  have "\<exists>s'. foldM (\<lambda>k. addEdge (int hubIdx) (int (fst (?C ! k)))) ?near (st\<lparr>b_rng := s1\<rparr>) = Some s'
          \<and> (?I s' \<and> b_rng s' = s1)
          \<and> length (b_edges s') \<le> length (b_edges (st\<lparr>b_rng := s1\<rparr>)) + length ?near * 1"
  proof (rule foldM_count [where I = "\<lambda>s. ?I s \<and> b_rng s = s1" and m = "\<lambda>s. length (b_edges s)"])
    show "?I (st\<lparr>b_rng := s1\<rparr>) \<and> b_rng (st\<lparr>b_rng := s1\<rparr>) = s1"
      using link_inv_start [OF inv] by simp
  next
    fix k s
    assume k: "k \<in> set ?near" and I: "?I s \<and> b_rng s = s1"
    from k have mem: "?C ! k \<in> set ?C" by simp
    from addEdge_link_inv [OF conjunct1 [OF I] h mem cn [OF mem]] I
    show "\<exists>s'. addEdge (int hubIdx) (int (fst (?C ! k))) s = Some s' \<and>
            (?I s' \<and> b_rng s' = s1) \<and> length (b_edges s') \<le> length (b_edges s) + 1"
      by auto
  qed
  then obtain st1 where st1:
      "foldM (\<lambda>k. addEdge (int hubIdx) (int (fst (?C ! k)))) ?near (st\<lparr>b_rng := s1\<rparr>) = Some st1"
      "?I st1" "b_rng st1 = s1"
      "length (b_edges st1) \<le> length (b_edges st) + min (8 + l) (length ?C)"
    by auto
  obtain f s2 where f: "rng_index s1 2 = (f, s2)"
    by (cases "rng_index s1 2")
  let ?c = "if ?C = [] then 0 else 1 :: nat"
  have "\<exists>s'. foldM (\<lambda>_. farLink hubIdx ?C) [0..<2 + f] (st1\<lparr>b_rng := s2\<rparr>) = Some s'
          \<and> ?I s'
          \<and> length (b_edges s') \<le> length (b_edges (st1\<lparr>b_rng := s2\<rparr>)) + length [0..<2 + f] * ?c"
  proof (rule foldM_count [where I = ?I and m = "\<lambda>s. length (b_edges s)"])
    show "?I (st1\<lparr>b_rng := s2\<rparr>)" by (rule link_inv_rng [OF st1(2)])
  next
    fix x s
    assume "?I s"
    from farLink_link_inv [OF this h cn]
    show "\<exists>s'. farLink hubIdx ?C s = Some s' \<and> ?I s' \<and>
            length (b_edges s') \<le> length (b_edges s) + ?c"
      by simp
  qed
  then obtain st2 where st2:
      "foldM (\<lambda>_. farLink hubIdx ?C) [0..<2 + f] (st1\<lparr>b_rng := s2\<rparr>) = Some st2"
      "?I st2"
      "length (b_edges st2) \<le> length (b_edges st1) + (2 + f) * ?c"
    by auto
  have near: "nearLinks st = 8 + l" using l by (simp add: nearLinks_def)
  have far: "farLinks st = 2 + f" using l f by (simp add: farLinks_def)
  have res: "linkHub R hubIdx st = Some st2"
    using h len l st1(1,3) f st2(1)
    by (simp add: linkHub_def hubCands_def [symmetric] Let_def)
  have "length (b_edges st2) \<le> length (b_edges st) + min (nearLinks st) (length ?C)
        + (if ?C = [] then 0 else farLinks st)"
    using st1(4) st2(3) near far by (auto split: if_splits)
  with res st2(2) show ?thesis by (simp add: link_inv_def)
qed



lemma linkHubs_binv:
  assumes inv: "binv n st"
  shows "\<exists>st'. linkHubs R st = Some st' \<and> binv n st' \<and> extends st st'"
proof -
  let ?I = "\<lambda>s. binv n s \<and> extends st s"
  have "\<exists>s'. foldM (linkHub R) (b_chosen st) st = Some s' \<and> ?I s'"
  proof (rule foldM_invariant [where I = ?I])
    show "?I st" using inv by (simp add: extends_refl)
  next
    fix x s
    assume x: "x \<in> set (b_chosen st)" and I: "?I s"
    from x inv have "x < n" by (simp add: binv_def list_all_iff)
    from linkHub_binv [OF conjunct1 [OF I] this, of R] I
    show "\<exists>s'. linkHub R x s = Some s' \<and> ?I s'"
      by (auto intro: extends_trans)
  qed
  then show ?thesis by (simp add: linkHubs_def)
qed

subsection \<open>The whole build\<close>

lemma stripDeg_map_hub: "stripDeg ns = stripDeg ns' \<Longrightarrow> map n_hub ns = map n_hub ns'"
proof -
  assume a: "stripDeg ns = stripDeg ns'"
  have "map n_hub xs = map n_hub (stripDeg xs)" for xs
    by (simp add: stripDeg_def)
  with a show ?thesis by metis
qed

lemma no_hub_hub_inv:
  assumes "list_all (\<lambda>v. \<not> n_hub v) ns" and "stripDeg (b_nodes st) = stripDeg ns"
    and "b_chosen st = []"
  shows "hub_inv st"
proof -
  have "map n_hub (b_nodes st) = map n_hub ns" by (rule stripDeg_map_hub [OF assms(2)])
  then have "\<forall>i < length (b_nodes st). n_hub (b_nodes st ! i) = n_hub (ns ! i)"
    by (metis length_map nth_map)
  moreover have "length (b_nodes st) = length ns" by (rule stripDeg_length [OF assms(2)])
  ultimately show ?thesis
    using assms(1,3) by (simp add: hub_inv_def list_all_length)
qed

lemma pairOf_keyOf: "pairOf e = pairOf e' \<Longrightarrow> keyOf e = keyOf e'"
  by (cases e; cases e') (auto simp: pairOf_def keyOf_def doubleton_eq_iff edgeKey_commute)

lemma binv_edges_ok: "binv n st \<Longrightarrow> edges_ok (graphOf st)"
  by (auto simp: binv_def edges_ok_def graphOf_def intro: distinct_map_coarser pairOf_keyOf)

lemma buildPhases_total:
  "\<exists>st2 st3 st. meshed w h = Some st2 \<and> selectHubs st2 = Some st3 \<and>
     linkHubs (spacingOf w * 8.4) st3 = Some st \<and> buildPhases w h = Some st \<and>
     b_rng st2 = b_rng (lattice w h) \<and> length (b_nodes st2) = length (b_nodes (lattice w h)) \<and>
     b_chosen st2 = [] \<and>
     binv (length (b_nodes st)) st \<and> binv (length (b_nodes st)) st3 \<and>
     binv (length (b_nodes st)) st2 \<and> extends (lattice w h) st2 \<and>
     0 < length (b_nodes st) \<and> b_chosen st = b_chosen st3 \<and> distinct (b_chosen st) \<and> b_chosen st \<noteq> [] \<and>
     length (b_chosen st) \<le> hubCountOf (length (b_nodes st)) \<and>
     length (filter n_hub (b_nodes st)) = length (b_chosen st)"
proof -
  let ?n = "length (b_nodes (lattice w h))"
  have n: "0 < ?n" by (rule lattice_nonempty)
  obtain st2 where st2: "meshed w h = Some st2" "binv ?n st2" "extends (lattice w h) st2"
      "b_rng st2 = b_rng (lattice w h)"
    using meshed_binv [of w h] by blast
  have lat: "lat_inv (rowsOf w h) (colsOf w) (lattice w h)" by (rule lattice_lat_inv)
  from st2(3) lat have c2: "b_chosen st2 = []" by (simp add: extends_def lat_inv_def)
  have h2: "hub_inv st2"
  proof (rule no_hub_hub_inv [OF _ _ c2])
    show "list_all (\<lambda>v. \<not> n_hub v) (b_nodes (lattice w h))" using lat by (simp add: lat_inv_def)
    show "stripDeg (b_nodes st2) = stripDeg (b_nodes (lattice w h))"
      using st2(3) by (simp add: extends_def)
  qed
  obtain st3 where st3: "selectHubs st2 = Some st3" "binv ?n st3" "hub_inv st3"
      "b_chosen st3 \<noteq> []" "length (b_chosen st3) \<le> hubCountOf ?n"
    using selectHubs_binv [OF st2(2) n h2 c2] by blast
  obtain st where st: "linkHubs (spacingOf w * 8.4) st3 = Some st" "binv ?n st" "extends st3 st"
    using linkHubs_binv [OF st3(2)] by blast
  have len: "length (b_nodes st) = ?n" "length (b_nodes st3) = ?n" "length (b_nodes st2) = ?n"
    using st(2) st3(2) st2(2) by (simp_all add: binv_def)
  have ch: "b_chosen st = b_chosen st3" using st(3) by (simp add: extends_def)
  have "length (filter n_hub (b_nodes st)) = length (filter n_hub (b_nodes st3))"
    by (rule stripDeg_hubs) (use st(3) in \<open>simp add: extends_def\<close>)
  also have "\<dots> = length (b_chosen st3)"
    by (rule hub_inv_count [OF st3(3)]) (use st3(2) len in \<open>simp add: binv_def\<close>)
  finally have cnt: "length (filter n_hub (b_nodes st)) = length (b_chosen st)"
    using ch by simp
  have "buildPhases w h = Some st"
    using st2(1) st3(1) st(1) by (simp add: buildPhases_def)
  moreover have "distinct (b_chosen st)" using st3(3) ch by (simp add: hub_inv_def)
  moreover have "b_nodes st \<noteq> []" using n len(1) by (metis length_greater_0_conv)
  ultimately show ?thesis
    using st2 st3 st len ch cnt c2 by simp
qed

lemma buildGraph_Some:
  "buildPhases w h = Some st \<Longrightarrow>
   buildGraph w h sm = Some (graphOf st, sm\<lparr>lastSpacing := spacingOf w\<rparr>)"
  by (simp add: buildGraph_def graphOf_def)

text \<open>
  C2. Whatever the viewport, \<^verbatim>\<open>buildGraph(w, h)\<close> returns a graph, and in it every edge
  \<open>[a, b]\<close> has \<open>a \<noteq> b\<close>, both endpoints are indices of the node sequence, and no
  unordered pair \<open>{a, b}\<close> occurs twice in the edge list.
\<close>

theorem buildGraph_edges_ok:
  "\<exists>g sm'. buildGraph w h sm = Some (g, sm') \<and> edges_ok g"
proof -
  obtain st where "buildPhases w h = Some st" "binv (length (b_nodes st)) st"
    using buildPhases_total [of w h] by blast
  then show ?thesis
    using buildGraph_Some [of w h st sm] binv_edges_ok by blast
qed

text \<open>
  C1. Two calls of \<^verbatim>\<open>buildGraph(w, h)\<close>, made from any two states \<open>sm1\<close> and \<open>sm2\<close> of
  the module-level variables, both return, and they return the same graph: the same
  number of nodes, the same current and rest position at every index, the same hub
  flags and the same edge list. Nothing but \<open>w\<close> and \<open>h\<close> enters the result.
\<close>

theorem buildGraph_deterministic:
  "\<exists>g1 s1 g2 s2. buildGraph w h sm1 = Some (g1, s1) \<and> buildGraph w h sm2 = Some (g2, s2) \<and>
     g1 = g2 \<and>
     length (nodes g1) = length (nodes g2) \<and>
     map (\<lambda>v. (n_x v, n_y v, n_bx v, n_by v)) (nodes g1) =
       map (\<lambda>v. (n_x v, n_y v, n_bx v, n_by v)) (nodes g2) \<and>
     map n_hub (nodes g1) = map n_hub (nodes g2) \<and>
     edges g1 = edges g2"
proof -
  obtain st where "buildPhases w h = Some st"
    using buildPhases_total [of w h] by blast
  then show ?thesis
    using buildGraph_Some [of w h st sm1] buildGraph_Some [of w h st sm2] by simp
qed

lemma redraw_guard:
  "guard \<le> 60 \<Longrightarrow> fst (redraw chosen n pick guard s) \<in> set chosen \<Longrightarrow>
     redrawGuard chosen n pick guard s = 60"
proof (induction chosen n pick guard s rule: redraw.induct)
  case (1 chosen n pick guard s)
  show ?case
  proof (cases "pick \<in> set chosen \<and> guard < 60")
    case True
    obtain p' s' where p: "rng_index s n = (p', s')" by (cases "rng_index s n")
    have r: "redraw chosen n pick guard s = redraw chosen n p' (guard + 1) s'"
      using True p by (subst redraw.simps) simp
    have g: "redrawGuard chosen n pick guard s = redrawGuard chosen n p' (guard + 1) s'"
      using True p by (subst redrawGuard.simps) simp
    from True have "guard + 1 \<le> 60" by simp
    from "1.IH" [OF True p [symmetric] refl this] "1.prems"(2) r g show ?thesis by simp
  next
    case False
    then have r: "redraw chosen n pick guard s = (pick, s)"
      by (subst redraw.simps) auto
    from False have g: "redrawGuard chosen n pick guard s = guard"
      by (subst redrawGuard.simps) auto
    from "1.prems" r False g show ?thesis by auto
  qed
qed

lemma slotStale_iff: "slotStale st \<longleftrightarrow> slotPick st \<in> set (b_chosen st)"
proof -
  obtain p0 s1 where p: "rng_index (b_rng st) (length (b_nodes st)) = (p0, s1)"
    by (cases "rng_index (b_rng st) (length (b_nodes st))")
  have "slotGuard st = 60" if "slotPick st \<in> set (b_chosen st)"
    using that p redraw_guard [of 0 "b_chosen st" "length (b_nodes st)" p0 s1]
    by (simp add: slotPick_def slotGuard_def)
  then show ?thesis by (auto simp: slotStale_def)
qed

lemma selectHub_slot:
  assumes "selectHub st = Some st'"
  shows "b_chosen st' = set_add (slotPick st) (b_chosen st)"
  using assms
  by (auto simp: selectHub_def slotPick_def Let_def split_beta split: if_splits)

lemma foldM_selectHub_stale:
  "foldM (\<lambda>_. selectHub) xs st = Some st' \<Longrightarrow>
     length (b_chosen st') + staleSlots (length xs) st = length (b_chosen st) + length xs"
proof (induction xs arbitrary: st)
  case Nil
  then show ?case by simp
next
  case (Cons x xs)
  then obtain st1 where st1: "selectHub st = Some st1" "foldM (\<lambda>_. selectHub) xs st1 = Some st'"
    by (auto split: option.splits)
  have "length (b_chosen st1) + (if slotStale st then 1 else 0) = length (b_chosen st) + 1"
    using selectHub_slot [OF st1(1)] by (simp add: slotStale_iff set_add_def)
  with Cons.IH [OF st1(2)] st1(1) show ?case by simp
qed

text \<open>
  C3, as amended. The number of hub-flagged nodes of the returned graph is
  \<open>max(8, round(0.024 \<times> nodeCount))\<close> less the number of stale hub slots, the slots whose
  first draw and 60 redraws all hit chosen nodes; it is at least 1. So the count is
  exactly \<open>max(8, round(0.024 \<times> nodeCount))\<close> if and only if no slot is stale.
\<close>

theorem hub_count_stale_slots:
  "\<exists>st2 st sm'. meshed w h = Some st2 \<and> buildPhases w h = Some st \<and>
     buildGraph w h sm = Some (graphOf st, sm') \<and>
     hubFlagged (graphOf st) + staleSlots (hubCountOf (length (nodes (graphOf st)))) st2
       = hubCountOf (length (nodes (graphOf st))) \<and>
     hubCountExact (graphOf st)
       = (staleSlots (hubCountOf (length (nodes (graphOf st)))) st2 = 0) \<and>
     1 \<le> hubFlagged (graphOf st)"
proof -
  obtain st2 st3 st where b: "meshed w h = Some st2" "selectHubs st2 = Some st3"
     "buildPhases w h = Some st" "b_chosen st2 = []" "b_chosen st = b_chosen st3"
     "b_chosen st \<noteq> []" "binv (length (b_nodes st)) st2"
     "length (filter n_hub (b_nodes st)) = length (b_chosen st)"
    using buildPhases_total [of w h] by blast
  let ?H = "hubCountOf (length (b_nodes st))"
  have n2: "length (b_nodes st2) = length (b_nodes st)" using b(7) by (simp add: binv_def)
  have "length (b_chosen st3) + staleSlots (length [0..<?H]) st2 = length (b_chosen st2) + length [0..<?H]"
    by (rule foldM_selectHub_stale) (use b(2) n2 in \<open>simp add: selectHubs_def\<close>)
  then have eq: "length (b_chosen st) + staleSlots ?H st2 = ?H" using b(4,5) by simp
  then have iff: "(length (b_chosen st) = ?H) = (staleSlots ?H st2 = 0)" by linarith
  from b(6) have "1 \<le> length (b_chosen st)" by (cases "b_chosen st") simp_all
  with eq iff show ?thesis
    using b(1,3,8) buildGraph_Some [of w h st sm]
    by (simp add: hubFlagged_def hubCountExact_def graphOf_def)
qed

subsection \<open>The zero seed\<close>

lemma seed_zero: "makeRng (seedOf 40454 71917) = 0"
  by (simp add: makeRng_def seedOf_def js_mul_def round53_def)

lemma place_rng_zero: "b_rng st = 0 \<Longrightarrow> b_rng (place sp dy rc st) = 0"
  by (simp add: place_def split_beta Let_def rng_next_zero)

lemma lattice_rng_zero: "makeRng (seedOf w h) = 0 \<Longrightarrow> b_rng (lattice w h) = 0"
  unfolding lattice_def
  by (rule fold_invariant [where I = "\<lambda>st. b_rng st = 0"])
     (simp_all add: build0_def place_rng_zero)

lemma rng_index_zero: "rng_index 0 m = (0, 0)"
  by (simp add: rng_index_def rng_next_zero)

lemma redraw_zero: "pick = 0 \<Longrightarrow> s = 0 \<Longrightarrow> redraw chosen n pick guard s = (0, 0)"
proof (induction chosen n pick guard s rule: redraw.induct)
  case (1 chosen n pick guard s)
  show ?case
  proof (cases "pick \<in> set chosen \<and> guard < 60")
    case True
    have "redraw chosen n pick guard s = redraw chosen n 0 (guard + 1) 0"
      using True "1.prems" by (subst redraw.simps) (simp add: rng_index_zero)
    also have "\<dots> = (0, 0)"
      using "1.IH" [OF True _ refl refl refl] "1.prems" by (simp add: rng_index_zero)
    finally show ?thesis .
  next
    case False
    then have "redraw chosen n pick guard s = (pick, s)"
      by (subst redraw.simps) auto
    with "1.prems" show ?thesis by simp
  qed
qed

lemma selectHub_zero:
  assumes "b_rng st = 0" and "0 < length (b_nodes st)"
  shows "\<exists>st'. selectHub st = Some st' \<and> b_rng st' = 0 \<and>
           length (b_nodes st') = length (b_nodes st) \<and>
           b_chosen st' = set_add 0 (b_chosen st)"
  using assms by (simp add: selectHub_def rng_index_zero redraw_zero Let_def)

lemma selectHubs_zero:
  assumes r: "b_rng st = 0" and n: "0 < length (b_nodes st)" and c0: "b_chosen st = []"
  shows "\<exists>st'. selectHubs st = Some st' \<and> b_chosen st' = [0]"
proof -
  let ?k = "hubCountOf (length (b_nodes st))"
  let ?I = "\<lambda>s. b_rng s = 0 \<and> length (b_nodes s) = length (b_nodes st) \<and> b_chosen s = [0]"
  have k: "[0..<?k] = 0 # [1..<?k]"
    by (simp add: hubCountOf_def upt_conv_Cons)
  obtain st1 where st1: "selectHub st = Some st1" "?I st1"
    using selectHub_zero [OF r n] c0 by (auto simp: set_add_def)
  have "\<exists>s'. foldM (\<lambda>_. selectHub) [1..<?k] st1 = Some s' \<and> ?I s'"
  proof (rule foldM_invariant [where I = ?I])
    show "?I st1" by (rule st1(2))
  next
    fix x :: nat and s :: build
    assume I: "?I s"
    then have rs: "b_rng s = 0" and ns: "0 < length (b_nodes s)" using n by simp_all
    from selectHub_zero [OF rs ns] I
    show "\<exists>s'. selectHub s = Some s' \<and> ?I s'" by (auto simp: set_add_def)
  qed
  then show ?thesis using st1(1) k by (auto simp: selectHubs_def)
qed

text \<open>
  C3 fails as stated: at the viewport 40454 \<times> 71917 the seed is 0, every draw is 0, every
  hub slot after the first picks index 0 again after its 60 redraws, and one node is
  flagged where the formula asks for at least 8.
\<close>

theorem hub_count_counterexample:
  "map_option (hubCountExact \<circ> fst) (buildGraph 40454 71917 sim0) = Some False"
proof -
  obtain st2 st3 st where b: "meshed 40454 71917 = Some st2" "selectHubs st2 = Some st3"
     "buildPhases 40454 71917 = Some st"
     "b_rng st2 = b_rng (lattice 40454 71917)"
     "length (b_nodes st2) = length (b_nodes (lattice 40454 71917))"
     "b_chosen st2 = []" "b_chosen st = b_chosen st3"
     "length (filter n_hub (b_nodes st)) = length (b_chosen st)"
    using buildPhases_total [of 40454 71917] by blast
  have "b_rng st2 = 0" using b(4) lattice_rng_zero [OF seed_zero] by simp
  moreover have "0 < length (b_nodes st2)" using b(5) lattice_nonempty [of 40454 71917] by simp
  ultimately have "b_chosen st3 = [0]"
    using selectHubs_zero [of st2] b(2,6) by auto
  with b(7,8) have "hubFlagged (graphOf st) = 1"
    by (simp add: hubFlagged_def graphOf_def)
  moreover have "8 \<le> hubCountOf (length (nodes (graphOf st)))"
    by (simp add: hubCountOf_def)
  ultimately have "\<not> hubCountExact (graphOf st)"
    unfolding hubCountExact_def by linarith
  then show ?thesis
    using buildGraph_Some [OF b(3), of sim0] by simp
qed

subsection \<open>The linking steps\<close>



































subsection \<open>General facts used at the concrete viewport\<close>


lemma foldM_preserve:
  assumes "foldM f xs s = Some s'" and "P s"
    and "\<And>x a b. f x a = Some b \<Longrightarrow> P a \<Longrightarrow> P b"
  shows "P s'"
  using assms by (induction xs arbitrary: s) (auto split: option.splits)



lemma selectHub_keeps:
  assumes "selectHub st = Some st'"
  shows "posOf (b_nodes st') = posOf (b_nodes st) \<and> b_edges st' = b_edges st \<and>
         b_edgeSet st' = b_edgeSet st \<and> length (b_nodes st') = length (b_nodes st)"
proof -
  have "posOf (ns[p := (ns ! p)\<lparr>n_hub := True\<rparr>]) = posOf ns" for ns p
  proof (cases "p < length ns")
    case True
    then show ?thesis by (simp add: posOf_def map_update list_update_same_conv)
  next
    case False
    then have "length ns \<le> p" by simp
    then show ?thesis by (simp add: list_update_beyond)
  qed
  then show ?thesis
    using assms by (auto simp: selectHub_def Let_def split_beta split: if_splits)
qed

lemma selectHubs_keeps:
  assumes "selectHubs st = Some st'"
  shows "posOf (b_nodes st') = posOf (b_nodes st) \<and> b_edges st' = b_edges st \<and>
         b_edgeSet st' = b_edgeSet st \<and> length (b_nodes st') = length (b_nodes st)"
  using assms unfolding selectHubs_def
  by (rule foldM_preserve [where P = "\<lambda>s. posOf (b_nodes s) = posOf (b_nodes st) \<and>
        b_edges s = b_edges st \<and> b_edgeSet s = b_edgeSet st \<and>
        length (b_nodes s) = length (b_nodes st)"])
     (use selectHub_keeps in auto)

lemma selectHub_draw:
  assumes "selectHub st = Some st'"
  shows "(b_rng st', b_chosen st') = hubDraws (length (b_nodes st)) 1 (b_rng st, b_chosen st)"
  using assms by (auto simp: selectHub_def Let_def split_beta split: if_splits)

lemma hubDraws_add: "hubDraws n (j + k) x = hubDraws n k (hubDraws n j x)"
  by (induction j arbitrary: x) (simp_all add: split_beta Let_def)

lemma foldM_selectHub_draws:
  assumes "foldM (\<lambda>_. selectHub) xs st = Some st'"
  shows "(b_rng st', b_chosen st') = hubDraws (length (b_nodes st)) (length xs) (b_rng st, b_chosen st)"
  using assms
proof (induction xs arbitrary: st)
  case Nil
  then show ?case by simp
next
  case (Cons x xs)
  then obtain st1 where st1: "selectHub st = Some st1" "foldM (\<lambda>_. selectHub) xs st1 = Some st'"
    by (auto split: option.splits)
  have len: "length (b_nodes st1) = length (b_nodes st)"
    using selectHub_keeps [OF st1(1)] by simp
  have "(b_rng st', b_chosen st') = hubDraws (length (b_nodes st)) (length xs) (b_rng st1, b_chosen st1)"
    using Cons.IH [OF st1(2)] len by simp
  also have "(b_rng st1, b_chosen st1) = hubDraws (length (b_nodes st)) 1 (b_rng st, b_chosen st)"
    by (rule selectHub_draw [OF st1(1)])
  finally show ?case
    using hubDraws_add [of "length (b_nodes st)" 1 "length xs" "(b_rng st, b_chosen st)"] by simp
qed






subsection \<open>The viewport 2 \<times> 4\<close>

lemma dims24: "spacingOf 2 = 30" "dyOf 2 = 1299 / 50" "colsOf 2 = 4" "rowsOf 2 4 = 4"
proof -
  show s: "spacingOf 2 = 30" by (simp add: spacingOf_def js_round_def)
  show d: "dyOf 2 = 1299 / 50" by (simp add: dyOf_def s)
  have "\<lceil>(1::real) / 15\<rceil> = 1" by (simp add: ceiling_eq_iff)
  then show "colsOf 2 = 4" by (simp add: colsOf_def s)
  show "rowsOf 2 4 = 4" by (simp add: rowsOf_def d)
qed

lemma seed24: "makeRng (seedOf 2 4) = 2842653147"
  by (simp add: makeRng_def seedOf_def js_mul_def round53_def)

lemma cells44:
  "cells 4 4 = [(0,0),(0,1),(0,2),(0,3),(1,0),(1,1),(1,2),(1,3),(2,0),(2,1),(2,2),(2,3),(3,0),(3,1)]
               @ [(3,2)] @ [(3,3)]"
  by (simp add: cells_def upt_rec)

lemma rep4: "replicate 4 v = [v, v, v, v]"
  by (simp add: eval_nat_numeral)

lemma lattice24: "lattice 2 4 = lat24"
  by (simp add: lattice_def dims24 seed24 cells44 build0_def place_def rng_next_def
      xorshift_def lat24_def Let_def rep4)

lemma lat24_fields:
  "b_rng lat24 = 581799454"
  "b_idx lat24 = [[0, 1, 2, 3], [4, 5, 6, 7], [8, 9, 10, 11], [12, 13, 14, 15]]"
  "length (b_nodes lat24) = 16"
  "posOf (b_nodes lat24) ! 14 = (24740399493 / 536870912, 142627620849789 / 2684354560000)"
  "posOf (b_nodes lat24) ! 15 = (1649025265209 / 21474836480, 269805918919173 / 5368709120000)"
  by (simp_all add: lat24_def posOf_def)




lemma hubCount16: "hubCountOf 16 = 8"
  by (simp add: hubCountOf_def js_round_def)

lemma draws24:
  "hubDraws 16 8 (581799454, []) = (1877469158, [15, 3, 5, 13, 9, 4, 8, 6])"
proof -
  have c: "hubDraws 16 (Suc k) x = hubDraws 16 k (hubDraws 16 1 x)" for k x
    using hubDraws_add [of 16 1 k x] by (simp del: hubDraws.simps)
  have n: "8 = Suc 7" "7 = Suc 6" "6 = Suc 5" "5 = Suc 4" "4 = Suc 3" "3 = Suc 2" "2 = Suc 1"
    by simp_all
  have d1: "hubDraws 16 1 (581799454, []) = (4272878217, [15])"
    by (simp add: rng_index_def rng_next_def xorshift_def redraw.simps set_add_def Let_def)
  have d2: "hubDraws 16 1 (4272878217, [15]) = (1057463350, [15, 3])"
    by (simp add: rng_index_def rng_next_def xorshift_def redraw.simps set_add_def Let_def)
  have d3: "hubDraws 16 1 (1057463350, [15, 3]) = (1554412726, [15, 3, 5])"
    by (simp add: rng_index_def rng_next_def xorshift_def redraw.simps set_add_def Let_def)
  have d4: "hubDraws 16 1 (1554412726, [15, 3, 5]) = (3559868526, [15, 3, 5, 13])"
    by (simp add: rng_index_def rng_next_def xorshift_def redraw.simps set_add_def Let_def)
  have d5: "hubDraws 16 1 (3559868526, [15, 3, 5, 13]) = (2574272799, [15, 3, 5, 13, 9])"
    by (simp add: rng_index_def rng_next_def xorshift_def redraw.simps set_add_def Let_def)
  have d6: "hubDraws 16 1 (2574272799, [15, 3, 5, 13, 9]) = (1339337072, [15, 3, 5, 13, 9, 4])"
    by (simp add: rng_index_def rng_next_def xorshift_def redraw.simps set_add_def Let_def)
  have d7: "hubDraws 16 1 (1339337072, [15, 3, 5, 13, 9, 4]) = (2242004397, [15, 3, 5, 13, 9, 4, 8])"
    by (simp add: rng_index_def rng_next_def xorshift_def redraw.simps set_add_def Let_def)
  have d8: "hubDraws 16 1 (2242004397, [15, 3, 5, 13, 9, 4, 8]) = (1877469158, [15, 3, 5, 13, 9, 4, 8, 6])"
    by (simp add: rng_index_def rng_next_def xorshift_def redraw.simps set_add_def Let_def)
  have "hubDraws 16 8 (581799454, []) = hubDraws 16 7 (4272878217, [15])"
    by (subst n(1)) (simp only: c d1)
  also have "\<dots> = hubDraws 16 6 (1057463350, [15, 3])"
    by (subst n(2)) (simp only: c d2)
  also have "\<dots> = hubDraws 16 5 (1554412726, [15, 3, 5])"
    by (subst n(3)) (simp only: c d3)
  also have "\<dots> = hubDraws 16 4 (3559868526, [15, 3, 5, 13])"
    by (subst n(4)) (simp only: c d4)
  also have "\<dots> = hubDraws 16 3 (2574272799, [15, 3, 5, 13, 9])"
    by (subst n(5)) (simp only: c d5)
  also have "\<dots> = hubDraws 16 2 (1339337072, [15, 3, 5, 13, 9, 4])"
    by (subst n(6)) (simp only: c d6)
  also have "\<dots> = hubDraws 16 1 (2242004397, [15, 3, 5, 13, 9, 4, 8])"
    by (subst n(7)) (simp only: c d7)
  also have "\<dots> = (1877469158, [15, 3, 5, 13, 9, 4, 8, 6])"
    by (rule d8)
  finally show ?thesis .
qed



lemma select24:
  assumes m: "meshed 2 4 = Some st2" and h: "selectHubs st2 = Some st3"
  shows "b_rng st3 = 1877469158 \<and> b_chosen st3 = [15, 3, 5, 13, 9, 4, 8, 6] \<and>
         length (b_nodes st3) = 16 \<and> binv 16 st3"
proof -
  obtain st2' st3' st where b: "meshed 2 4 = Some st2'" "selectHubs st2' = Some st3'"
     "binv (length (b_nodes st)) st3'"
     "length (b_nodes st2') = length (b_nodes (lattice 2 4))"
     "b_rng st2' = b_rng (lattice 2 4)" "b_chosen st2' = []" "buildPhases 2 4 = Some st"
    using buildPhases_total [of 2 4] by blast
  from b(1,2) m h have eq: "st2' = st2" "st3' = st3" by simp_all
  have n2: "length (b_nodes st2) = 16" using b(4) eq by (simp add: lattice24 lat24_fields)
  have n3: "length (b_nodes st3) = 16" using selectHubs_keeps [OF h] n2 by simp
  have "length (b_nodes st) = 16" using b(3) n3 eq by (simp add: binv_def)
  with b(3) eq have inv3: "binv 16 st3" by simp
  have "(b_rng st3, b_chosen st3) = hubDraws 16 8 (581799454, [])"
    using foldM_selectHub_draws [of "[0..<hubCountOf (length (b_nodes st2))]" st2 st3] h b(5,6) eq
    by (simp add: selectHubs_def n2 hubCount16 lattice24 lat24_fields)
  then have "b_rng st3 = 1877469158" and "b_chosen st3 = [15, 3, 5, 13, 9, 4, 8, 6]"
    by (simp_all add: draws24)
  with n3 inv3 show ?thesis by simp
qed


text \<open>
  At the same viewport the eight hub slots pick eight different nodes: there the number
  of hubs is the \<open>max(8, round(0.024 \<times> nodeCount))\<close> of C3.
\<close>

lemma hub_count_attained:
  "map_option (hubFlagged \<circ> fst) (buildGraph 2 4 sim0) = Some 8 \<and> hubCountOf 16 = 8"
proof -
  obtain st2 st3 st where b: "meshed 2 4 = Some st2" "selectHubs st2 = Some st3"
     "buildPhases 2 4 = Some st" "b_chosen st = b_chosen st3"
     "length (filter n_hub (b_nodes st)) = length (b_chosen st)"
    using buildPhases_total [of 2 4] by blast
  from select24 [OF b(1,2)] b(4,5) have "hubFlagged (graphOf st) = 8"
    by (simp add: hubFlagged_def graphOf_def)
  then show ?thesis
    using buildGraph_Some [OF b(3), of sim0] by (simp add: hubCount16)
qed

section \<open>Properties of the physics stepper and the scheduler\<close>

lemma stepLoop_map: "fst (stepLoop f ns e) = map f ns"
  by (induction ns arbitrary: e) (simp_all add: split_beta Let_def)

lemma stepLoop_energy:
  "snd (stepLoop f ns e) = e + (\<Sum>n\<leftarrow>map f ns. \<bar>n_vx n\<bar> + \<bar>n_vy n\<bar>)"
  by (induction ns arbitrary: e) (simp_all add: split_beta Let_def)

lemma step_eq:
  "step dt nowMs allow sm =
     ((\<Sum>n\<leftarrow>map (stepNode dt nowMs allow sm) (nodes (graph sm)). \<bar>n_vx n\<bar> + \<bar>n_vy n\<bar>)
        / max 1 (real (length (nodes (graph sm)))),
      sm\<lparr>graph := (graph sm)\<lparr>nodes := map (stepNode dt nowMs allow sm) (nodes (graph sm))\<rparr>\<rparr>)"
  by (simp add: step_def Let_def split_beta stepLoop_map stepLoop_energy)

lemma stepNode_fixed:
  "n_bx (stepNode dt nowMs allow sm n) = n_bx n"
  "n_by (stepNode dt nowMs allow sm n) = n_by n"
  "n_deg (stepNode dt nowMs allow sm n) = n_deg n"
  "n_hub (stepNode dt nowMs allow sm n) = n_hub n"
  by (simp_all add: stepNode_def Let_def split_beta)

lemma step_shape: "shapeOf (graph (snd (step dt nowMs allow sm))) = shapeOf (graph sm)"
  by (simp add: step_eq shapeOf_def stepNode_fixed)

lemma step_fields:
  "lastW (snd (step dt nowMs allow sm)) = lastW sm"
  "lastH (snd (step dt nowMs allow sm)) = lastH sm"
  "lastSpacing (snd (step dt nowMs allow sm)) = lastSpacing sm"
  "mouseX (snd (step dt nowMs allow sm)) = mouseX sm"
  "mouseY (snd (step dt nowMs allow sm)) = mouseY sm"
  "mouseActive (snd (step dt nowMs allow sm)) = mouseActive sm"
  "mouseMoveAt (snd (step dt nowMs allow sm)) = mouseMoveAt sm"
  "raf (snd (step dt nowMs allow sm)) = raf sm"
  "running (snd (step dt nowMs allow sm)) = running sm"
  "lastTs (snd (step dt nowMs allow sm)) = lastTs sm"
  "pending (snd (step dt nowMs allow sm)) = pending sm"
  "nextHandle (snd (step dt nowMs allow sm)) = nextHandle sm"
  by (simp_all add: step_eq)

lemma stepCall_shape: "shapeOf (graph (stepCall c sm)) = shapeOf (graph sm)"
  by (simp add: stepCall_def step_shape)

lemma stepCall_fields:
  "lastW (stepCall c sm) = lastW sm \<and> lastH (stepCall c sm) = lastH sm \<and>
   lastSpacing (stepCall c sm) = lastSpacing sm \<and> raf (stepCall c sm) = raf sm \<and>
   running (stepCall c sm) = running sm \<and> lastTs (stepCall c sm) = lastTs sm \<and>
   pending (stepCall c sm) = pending sm"
  by (simp add: stepCall_def step_fields)

text \<open>
  C8. Whatever the sequence of \<^verbatim>\<open>step\<close> calls, with any \<open>dt\<close>, pointer state and
  interaction state at each call, every node keeps its rest position \<open>(bx, by)\<close>, its
  degree and its hub flag, the node sequence keeps its length and the edge list is the
  same; the other module-level variables are untouched as well. Only \<open>x\<close>, \<open>y\<close>, \<open>vx\<close> and
  \<open>vy\<close> of the nodes change.
\<close>

theorem step_frame:
  "shapeOf (graph (stepCalls cs sm)) = shapeOf (graph sm) \<and>
   length (nodes (graph (stepCalls cs sm))) = length (nodes (graph sm)) \<and>
   lastW (stepCalls cs sm) = lastW sm \<and> lastH (stepCalls cs sm) = lastH sm \<and>
   lastSpacing (stepCalls cs sm) = lastSpacing sm \<and> raf (stepCalls cs sm) = raf sm \<and>
   running (stepCalls cs sm) = running sm \<and> lastTs (stepCalls cs sm) = lastTs sm \<and>
   pending (stepCalls cs sm) = pending sm"
proof -
  have "shapeOf (graph (fold stepCall cs sm)) = shapeOf (graph sm) \<and>
   lastW (fold stepCall cs sm) = lastW sm \<and> lastH (fold stepCall cs sm) = lastH sm \<and>
   lastSpacing (fold stepCall cs sm) = lastSpacing sm \<and> raf (fold stepCall cs sm) = raf sm \<and>
   running (fold stepCall cs sm) = running sm \<and> lastTs (fold stepCall cs sm) = lastTs sm \<and>
   pending (fold stepCall cs sm) = pending sm"
  proof (induction cs arbitrary: sm)
    case Nil
    show ?case by simp
  next
    case (Cons c cs)
    show ?case
      using Cons.IH [of "stepCall c sm"] stepCall_shape [of c sm] stepCall_fields [of c sm]
      by simp
  qed
  moreover from this have "map (\<lambda>n. (n_bx n, n_by n, n_deg n, n_hub n)) (nodes (graph (fold stepCall cs sm)))
      = map (\<lambda>n. (n_bx n, n_by n, n_deg n, n_hub n)) (nodes (graph sm))"
    by (simp add: shapeOf_def)
  then have "length (nodes (graph (fold stepCall cs sm))) = length (nodes (graph sm))"
    by (rule map_eq_imp_length_eq)
  ultimately show ?thesis unfolding stepCalls_def by blast
qed

lemma stepNode_updateSpec: "stepNode dt nowMs allow sm n = updateSpec dt allow nowMs sm n"
  by (simp add: stepNode_def updateSpec_def accelSpec_def Let_def split_beta)

text \<open>
  C5. On a graph with at least one node, one call \<^verbatim>\<open>step(dt, now)\<close> replaces every node
  by its update \<open>v' = (v + a \<times> dt) \<times> e^(-6.4 \<times> dt)\<close>, \<open>pos' = pos + v' \<times> dt\<close>, with \<open>a\<close> the
  spring acceleration \<open>(rest - pos) \<times> 8.8\<close> plus the pointer pull, and returns the mean of
  \<open>|vx| + |vy|\<close> over the updated nodes.
\<close>

theorem step_formula:
  assumes "nodes (graph sm) \<noteq> []"
  shows "step dt nowMs allow sm =
           (meanSpeed (map (updateSpec dt allow nowMs sm) (nodes (graph sm))),
            sm\<lparr>graph := (graph sm)\<lparr>nodes := map (updateSpec dt allow nowMs sm) (nodes (graph sm))\<rparr>\<rparr>)"
proof -
  have "stepNode dt nowMs allow sm = updateSpec dt allow nowMs sm"
    by (rule ext) (rule stepNode_updateSpec)
  moreover have "max 1 (real (length (nodes (graph sm)))) = real (length (nodes (graph sm)))"
    using assms by (cases "nodes (graph sm)") simp_all
  ultimately show ?thesis
    by (simp add: step_eq meanSpeed_def)
qed

theorem step_formula_witness:
  "nodes (graph sim10) \<noteq> [] \<and>
   step (1 / 2) 0 False sim10 =
     (meanSpeed (map (updateSpec (1 / 2) False 0 sim10) (nodes (graph sim10))),
      sim10\<lparr>graph := (graph sim10)\<lparr>nodes := map (updateSpec (1 / 2) False 0 sim10) (nodes (graph sim10))\<rparr>\<rparr>)"
proof -
  have ne: "nodes (graph sim10) \<noteq> []" by (simp add: sim10_def)
  show ?thesis by (rule conjI [OF ne step_formula [OF ne]])
qed

lemma hypot_sq: "hypot a b = r \<Longrightarrow> a * a + b * b = r * r"
proof -
  assume h: "hypot a b = r"
  have "0 \<le> a * a + b * b" by simp
  then have "(sqrt (a * a + b * b))\<^sup>2 = a * a + b * b" by (rule real_sqrt_pow2)
  with h show ?thesis by (simp add: hypot_def power2_eq_square)
qed

lemma pointerPull_near:
  assumes s: "30 \<le> lastSpacing sm"
    and near: "hypot (mouseX sm - n_x n) (mouseY sm - n_y n) = 0.5 * (lastSpacing sm * 4.8)"
  shows "pointerPull sm n =
           ((mouseX sm - n_x n) / (0.5 * (lastSpacing sm * 4.8)) * 550 * (if n_hub n then 1.34 else 1),
            (mouseY sm - n_y n) / (0.5 * (lastSpacing sm * 4.8)) * 550 * (if n_hub n then 1.34 else 1))"
proof -
  define R where "R = lastSpacing sm * 4.8"
  define dx where "dx = mouseX sm - n_x n"
  define dy where "dy = mouseY sm - n_y n"
  define d2 where "d2 = dx * dx + dy * dy"
  have R: "144 \<le> R" using s by (simp add: R_def)
  have d2: "d2 = (0.5 * R) * (0.5 * R)"
    unfolding d2_def dx_def dy_def R_def by (rule hypot_sq [OF near])
  have sq: "sqrt d2 = 0.5 * R"
    using near by (simp add: hypot_def d2_def dx_def dy_def R_def)
  have RR: "144 * 144 \<le> R * R" using R by (intro mult_mono) simp_all
  have lo: "d2 > 1 / 1000000" using d2 RR by simp
  have hi: "d2 < R * R" using d2 RR by simp
  have "sqrt d2 / R = 1 / 2" unfolding sq using R by simp
  then have t: "1 - sqrt d2 / R = 1 / 2" by linarith
  have "pointerPull sm n =
          (if d2 > 1 / 1000000 \<and> d2 < R * R
           then (dx / sqrt d2 * (2200 * (1 - sqrt d2 / R) * (1 - sqrt d2 / R)) * (if n_hub n then 1.34 else 1),
                 dy / sqrt d2 * (2200 * (1 - sqrt d2 / R) * (1 - sqrt d2 / R)) * (if n_hub n then 1.34 else 1))
           else (0, 0))"
    unfolding pointerPull_def Let_def d2_def dx_def dy_def R_def by (rule refl)
  also have "\<dots> = (dx / (0.5 * R) * 550 * (if n_hub n then 1.34 else 1),
                    dy / (0.5 * R) * 550 * (if n_hub n then 1.34 else 1))"
    unfolding t sq using lo hi by simp
  finally show ?thesis unfolding dx_def dy_def R_def .
qed

lemma pointerPull_far:
  assumes s: "30 \<le> lastSpacing sm"
    and far: "hypot (mouseX sm - n_x n) (mouseY sm - n_y n) = 2 * (lastSpacing sm * 4.8)"
  shows "pointerPull sm n = (0, 0)"
proof -
  define R where "R = lastSpacing sm * 4.8"
  define dx where "dx = mouseX sm - n_x n"
  define dy where "dy = mouseY sm - n_y n"
  define d2 where "d2 = dx * dx + dy * dy"
  have R: "144 \<le> R" using s by (simp add: R_def)
  have d2: "d2 = (2 * R) * (2 * R)"
    unfolding d2_def dx_def dy_def R_def by (rule hypot_sq [OF far])
  have RR: "144 * 144 \<le> R * R" using R by (intro mult_mono) simp_all
  have hi: "\<not> d2 < R * R" using d2 RR by simp
  have "pointerPull sm n =
          (if d2 > 1 / 1000000 \<and> d2 < R * R
           then (dx / sqrt d2 * (2200 * (1 - sqrt d2 / R) * (1 - sqrt d2 / R)) * (if n_hub n then 1.34 else 1),
                 dy / sqrt d2 * (2200 * (1 - sqrt d2 / R) * (1 - sqrt d2 / R)) * (if n_hub n then 1.34 else 1))
           else (0, 0))"
    unfolding pointerPull_def Let_def d2_def dx_def dy_def R_def by (rule refl)
  also have "\<dots> = (0, 0)" using hi by simp
  finally show ?thesis .
qed

text \<open>
  C7. With interaction enabled, the pointer active and moved less than 180 ms ago, a node
  at distance \<open>0.5 \<times> attractRadius\<close> from the pointer (\<open>attractRadius = spacing \<times> 4.8\<close>, the
  spacing being at least 30, as in every state the module reaches) gets a pointer-induced
  acceleration that is not zero and is a positive multiple of the vector from the node to
  the pointer; a node at distance \<open>2 \<times> attractRadius\<close> gets none.
\<close>

theorem pointer_attraction_local:
  assumes "allow" and "mouseActive sm" and "nowMs - mouseMoveAt sm < 180"
    and s: "30 \<le> lastSpacing sm"
    and near: "hypot (mouseX sm - n_x n1) (mouseY sm - n_y n1) = 0.5 * (lastSpacing sm * 4.8)"
    and far: "hypot (mouseX sm - n_x n2) (mouseY sm - n_y n2) = 2 * (lastSpacing sm * 4.8)"
  shows "pointerAccel allow nowMs sm n1 \<noteq> (0, 0) \<and>
         (\<exists>k. 0 < k \<and>
              pointerAccel allow nowMs sm n1 = (k * (mouseX sm - n_x n1), k * (mouseY sm - n_y n1))) \<and>
         pointerAccel allow nowMs sm n2 = (0, 0)"
proof -
  define R where "R = lastSpacing sm * 4.8"
  define m :: real where "m = (if n_hub n1 then 1.34 else 1)"
  define k where "k = 550 * m / (0.5 * R)"
  define dx where "dx = mouseX sm - n_x n1"
  define dy where "dy = mouseY sm - n_y n1"
  have rm: "recentlyMoved allow nowMs sm" using assms(1-3) by (simp add: recentlyMoved_def)
  have R: "144 \<le> R" using s by (simp add: R_def)
  have m: "0 < m" by (simp add: m_def)
  have k: "0 < k" unfolding k_def using R m by simp
  have "pointerAccel allow nowMs sm n1 = (dx / (0.5 * R) * 550 * m, dy / (0.5 * R) * 550 * m)"
    using rm pointerPull_near [OF s near] by (simp add: pointerAccel_def dx_def dy_def R_def m_def)
  also have "\<dots> = (k * dx, k * dy)" by (simp add: k_def)
  finally have acc: "pointerAccel allow nowMs sm n1 = (k * dx, k * dy)" .
  have "dx * dx + dy * dy = (0.5 * R) * (0.5 * R)"
    unfolding dx_def dy_def R_def by (rule hypot_sq [OF near])
  moreover have "0 < (0.5 * R) * (0.5 * R)" using R by simp
  ultimately have "dx \<noteq> 0 \<or> dy \<noteq> 0" by auto
  then have nz: "(k * dx, k * dy) \<noteq> (0, 0)" using k by auto
  have farz: "pointerAccel allow nowMs sm n2 = (0, 0)"
    using rm pointerPull_far [OF s far] by (simp add: pointerAccel_def)
  have "\<exists>k. 0 < k \<and> pointerAccel allow nowMs sm n1 = (k * dx, k * dy)"
    using k acc by blast
  with nz acc farz show ?thesis unfolding dx_def dy_def by simp
qed

lemma sqrt_9216: "sqrt 9216 = 96"
  using real_sqrt_abs [of 96] by simp

lemma sqrt_147456: "sqrt 147456 = 384"
  using real_sqrt_abs [of 384] by simp

theorem pointer_attraction_local_witness:
  "pointerAccel True 100 simPointer nodeNear \<noteq> (0, 0) \<and>
   (\<exists>k. 0 < k \<and>
      pointerAccel True 100 simPointer nodeNear =
        (k * (mouseX simPointer - n_x nodeNear), k * (mouseY simPointer - n_y nodeNear))) \<and>
   pointerAccel True 100 simPointer nodeFar = (0, 0)"
proof (rule pointer_attraction_local)
  show "True" ..
  show "mouseActive simPointer" by (simp add: simPointer_def)
  show "100 - mouseMoveAt simPointer < 180" by (simp add: simPointer_def)
  show "30 \<le> lastSpacing simPointer" by (simp add: simPointer_def sim0_def)
  show "hypot (mouseX simPointer - n_x nodeNear) (mouseY simPointer - n_y nodeNear)
          = 0.5 * (lastSpacing simPointer * 4.8)"
    by (simp add: simPointer_def sim0_def nodeNear_def hypot_def sqrt_9216)
  show "hypot (mouseX simPointer - n_x nodeFar) (mouseY simPointer - n_y nodeFar)
          = 2 * (lastSpacing simPointer * 4.8)"
    by (simp add: simPointer_def sim0_def nodeFar_def hypot_def sqrt_147456)
qed

lemma sched_same_refl: "sched_same sm sm"
  by (simp add: sched_same_def)

lemma resizeMaybeRebuild_total:
  "\<exists>sm'. resizeMaybeRebuild force e sm = Some sm' \<and> sched_same sm sm' \<and>
         mouseActive sm' = mouseActive sm \<and> mouseMoveAt sm' = mouseMoveAt sm"
proof -
  let ?w = "nat (max 1 (innerWidth e))"
  let ?h = "nat (max 1 (innerHeight e))"
  obtain st where "buildPhases ?w ?h = Some st"
    using buildPhases_total [of ?w ?h] by blast
  then have "buildGraph ?w ?h sm = Some (graphOf st, sm\<lparr>lastSpacing := spacingOf ?w\<rparr>)"
    by (rule buildGraph_Some)
  then show ?thesis
    by (simp add: resizeMaybeRebuild_def Let_def sched_same_def)
qed

lemma ensureRun_running:
  assumes "running sm"
  shows "\<exists>sm'. ensureRun force e sm = Some sm' \<and> sched_same sm sm'"
proof -
  obtain sm1 where sm1: "resizeMaybeRebuild force e sm = Some sm1" "sched_same sm sm1"
    using resizeMaybeRebuild_total [of force e sm] by blast
  with assms have "running sm1" by (simp add: sched_same_def)
  with sm1 show ?thesis by (simp add: ensureRun_def)
qed

lemma ensureRun_sched_ok:
  assumes "sched_ok sm"
  shows "\<exists>sm'. ensureRun force e sm = Some sm' \<and> sched_ok sm' \<and> running sm'"
proof -
  obtain sm1 where sm1: "resizeMaybeRebuild force e sm = Some sm1" "sched_same sm sm1"
    using resizeMaybeRebuild_total [of force e sm] by blast
  show ?thesis
  proof (cases "running sm1")
    case True
    with sm1 assms show ?thesis by (simp add: ensureRun_def sched_same_def sched_ok_def)
  next
    case False
    with sm1 assms have "pending sm1 = []" by (simp add: sched_same_def sched_ok_def)
    with False sm1 show ?thesis
      by (simp add: ensureRun_def requestAnimationFrame_def sched_ok_def)
  qed
qed

lemma frame_sched_ok:
  assumes "pending sm = []"
  shows "\<exists>sm'. frame ts e sm = Some sm' \<and> (running sm \<longrightarrow> sched_ok sm') \<and>
               (\<not> running sm \<longrightarrow> sm' = sm)"
proof (cases "running sm")
  case False
  then show ?thesis by (simp add: frame_def)
next
  case True
  obtain sm1 where sm1: "resizeMaybeRebuild False e (sm\<lparr>lastTs := ts\<rparr>) = Some sm1"
      "sched_same (sm\<lparr>lastTs := ts\<rparr>) sm1"
    using resizeMaybeRebuild_total [of False e "sm\<lparr>lastTs := ts\<rparr>"] by blast
  define dt :: real where "dt = min 0.032 (max 0.008 (js_or ((ts - lastTs sm) / 1000) 0.016))"
  obtain en sm2 where st: "step dt ts (interaction e) sm1 = (en, sm2)"
    by (cases "step dt ts (interaction e) sm1")
  then have sm2: "sm2 = snd (step dt ts (interaction e) sm1)" by simp
  have p2: "pending sm2 = []" "running sm2"
    using sm1(2) assms True by (simp_all add: sm2 step_fields sched_same_def)
  have "frame ts e sm =
          (if en > 0.0013 \<or> recentlyMoved (interaction e) ts sm2
           then let (handle, sm3) = requestAnimationFrame sm2 in Some (sm3\<lparr>raf := handle\<rparr>)
           else Some (sm2\<lparr>running := False, raf := 0\<rparr>))"
    unfolding frame_def Let_def dt_def [symmetric] using True sm1(1) st by simp
  then show ?thesis
    using p2 True by (auto simp: requestAnimationFrame_def sched_ok_def)
qed

lemma handleEvent_sched_ok:
  assumes "sched_ok sm"
  shows "\<exists>sm'. handleEvent ev e sm = Some sm' \<and> sched_ok sm'"
proof (cases ev)
  case (Frame ts)
  show ?thesis
  proof (cases "pending sm")
    case Nil
    with Frame assms show ?thesis by simp
  next
    case (Cons hd rest)
    with assms have rest: "rest = []" and run: "running sm" by (simp_all add: sched_ok_def)
    from frame_sched_ok [of "sm\<lparr>pending := rest\<rparr>" ts e] rest run Frame Cons
    show ?thesis by auto
  qed
next
  case (PointerMove cx cy)
  have ok: "sched_ok (sm\<lparr>mouseX := cx, mouseY := cy, mouseActive := True, mouseMoveAt := perfNow e\<rparr>)"
    using assms by (simp add: sched_ok_def)
  from ensureRun_sched_ok [OF ok, of False e] PointerMove assms show ?thesis by auto
next
  case (TouchMove touches)
  show ?thesis
  proof (cases touches)
    case Nil
    with TouchMove assms show ?thesis by simp
  next
    case (Cons t rest)
    obtain cx cy where t: "t = (cx, cy)" by (cases t)
    have ok: "sched_ok (sm\<lparr>mouseX := cx, mouseY := cy, mouseActive := True, mouseMoveAt := perfNow e\<rparr>)"
      using assms by (simp add: sched_ok_def)
    from ensureRun_sched_ok [OF ok, of False e] TouchMove Cons t assms show ?thesis by auto
  qed
next
  case PointerLeave
  have ok: "sched_ok (sm\<lparr>mouseActive := False, mouseMoveAt := perfNow e\<rparr>)"
    using assms by (simp add: sched_ok_def)
  from ensureRun_sched_ok [OF ok, of False e] PointerLeave show ?thesis by auto
next
  case TouchEnd
  have ok: "sched_ok (sm\<lparr>mouseActive := False, mouseMoveAt := perfNow e\<rparr>)"
    using assms by (simp add: sched_ok_def)
  from ensureRun_sched_ok [OF ok, of False e] TouchEnd show ?thesis by auto
qed (use ensureRun_sched_ok [OF assms] in auto)

lemma runEvents_sched_ok: "\<exists>sm'. runEvents e0 evs = Some sm' \<and> sched_ok sm'"
proof -
  have "sched_ok sim0" by (simp add: sched_ok_def sim0_def)
  then obtain sm where sm: "ensureRun True e0 sim0 = Some sm" "sched_ok sm"
    using ensureRun_sched_ok by blast
  have "\<exists>sm'. foldM (\<lambda>(ev, e). handleEvent ev e) evs sm = Some sm' \<and> sched_ok sm'"
  proof (rule foldM_invariant [where I = sched_ok, OF sm(2)])
    fix x :: "event \<times> env" and s :: sim
    assume "sched_ok s"
    then show "\<exists>s'. (case x of (ev, e) \<Rightarrow> handleEvent ev e) s = Some s' \<and> sched_ok s'"
      using handleEvent_sched_ok by (cases x) simp
  qed
  with sm(1) show ?thesis by (simp add: runEvents_def)
qed

text \<open>In every state the module reaches, the spacing lies between 30 and 46.\<close>

lemma resizeMaybeRebuild_spacing:
  assumes "resizeMaybeRebuild force e sm = Some sm'" "spacing_ok sm"
  shows "spacing_ok sm'"
proof -
  let ?w = "nat (max 1 (innerWidth e))"
  let ?h = "nat (max 1 (innerHeight e))"
  obtain st where "buildPhases ?w ?h = Some st"
    using buildPhases_total [of ?w ?h] by blast
  then have "buildGraph ?w ?h sm = Some (graphOf st, sm\<lparr>lastSpacing := spacingOf ?w\<rparr>)"
    by (rule buildGraph_Some)
  with assms show ?thesis
    using spacingOf_range [of ?w]
    by (auto simp: resizeMaybeRebuild_def Let_def spacing_ok_def split: if_splits)
qed

lemma ensureRun_spacing:
  assumes "ensureRun force e sm = Some sm'" "spacing_ok sm"
  shows "spacing_ok sm'"
proof -
  obtain sm1 where sm1: "resizeMaybeRebuild force e sm = Some sm1"
    using resizeMaybeRebuild_total [of force e sm] by blast
  have "spacing_ok sm1" by (rule resizeMaybeRebuild_spacing [OF sm1 assms(2)])
  with assms(1) sm1 show ?thesis
    by (auto simp: ensureRun_def requestAnimationFrame_def spacing_ok_def split: if_splits)
qed

lemma frame_spacing:
  assumes "frame ts e sm = Some sm'" "spacing_ok sm"
  shows "spacing_ok sm'"
proof (cases "running sm")
  case False
  with assms show ?thesis by (simp add: frame_def)
next
  case True
  obtain sm1 where sm1: "resizeMaybeRebuild False e (sm\<lparr>lastTs := ts\<rparr>) = Some sm1"
    using resizeMaybeRebuild_total [of False e "sm\<lparr>lastTs := ts\<rparr>"] by blast
  have "spacing_ok (sm\<lparr>lastTs := ts\<rparr>)" using assms(2) by (simp add: spacing_ok_def)
  then have s1: "spacing_ok sm1" by (rule resizeMaybeRebuild_spacing [OF sm1])
  define dt :: real where "dt = min 0.032 (max 0.008 (js_or ((ts - lastTs sm) / 1000) 0.016))"
  obtain en sm2 where st: "step dt ts (interaction e) sm1 = (en, sm2)"
    by (cases "step dt ts (interaction e) sm1")
  then have "sm2 = snd (step dt ts (interaction e) sm1)" by simp
  then have s2: "spacing_ok sm2" using s1 by (simp add: spacing_ok_def step_fields)
  have "frame ts e sm =
          (if en > 0.0013 \<or> recentlyMoved (interaction e) ts sm2
           then let (handle, sm3) = requestAnimationFrame sm2 in Some (sm3\<lparr>raf := handle\<rparr>)
           else Some (sm2\<lparr>running := False, raf := 0\<rparr>))"
    unfolding frame_def Let_def dt_def [symmetric] using True sm1 st by simp
  with assms(1) s2 show ?thesis
    by (auto simp: requestAnimationFrame_def spacing_ok_def split: if_splits)
qed

lemma handleEvent_spacing:
  assumes "handleEvent ev e sm = Some sm'" "spacing_ok sm"
  shows "spacing_ok sm'"
proof -
  have upd: "spacing_ok (sm\<lparr>mouseX := cx, mouseY := cy, mouseActive := a, mouseMoveAt := t\<rparr>)"
      "spacing_ok (sm\<lparr>mouseActive := a, mouseMoveAt := t\<rparr>)"
      "spacing_ok (sm\<lparr>pending := ps\<rparr>)" for cx cy a t ps
    using assms(2) by (simp_all add: spacing_ok_def)
  show ?thesis
    using assms upd
    by (cases ev)
       (auto split: if_splits list.splits dest: ensureRun_spacing frame_spacing)
qed

lemma runEvents_spacing:
  assumes "runEvents e0 evs = Some sm"
  shows "30 \<le> lastSpacing sm \<and> lastSpacing sm \<le> 46"
proof -
  have s0: "spacing_ok sim0" by (simp add: spacing_ok_def sim0_def)
  from assms obtain sm1 where sm1: "ensureRun True e0 sim0 = Some sm1"
      "foldM (\<lambda>(ev, e). handleEvent ev e) evs sm1 = Some sm"
    by (auto simp: runEvents_def split: bind_splits)
  have "spacing_ok sm1" by (rule ensureRun_spacing [OF sm1(1) s0])
  with sm1(2) have "spacing_ok sm"
    by (rule foldM_preserve) (auto dest: handleEvent_spacing)
  then show ?thesis by (simp add: spacing_ok_def)
qed

text \<open>
  C9. \<^verbatim>\<open>ensureRun\<close> called while \<open>running\<close> is set returns with \<open>running\<close>, the handle
  \<open>raf\<close> and the queue of requested frames as they were: no frame is requested. The
  exposed \<^verbatim>\<open>redrawNeuralBackground\<close> is \<^verbatim>\<open>ensureRun(false)\<close>. After the start-up call and
  any sequence of events, at most one frame is pending, and one is pending exactly when
  \<open>running\<close> is set.
\<close>

theorem ensureRun_idempotent:
  assumes "running sm"
  shows "(\<exists>sm'. ensureRun force e sm = Some sm' \<and> running sm' \<and> raf sm' = raf sm \<and>
                pending sm' = pending sm \<and> nextHandle sm' = nextHandle sm) \<and>
         handleEvent Redraw e sm = ensureRun False e sm \<and>
         (\<exists>smn. runEvents e0 evs = Some smn \<and> length (pending smn) \<le> 1 \<and>
                (running smn \<longleftrightarrow> pending smn \<noteq> []))"
proof -
  from ensureRun_running [OF assms, of force e] assms
  have "\<exists>sm'. ensureRun force e sm = Some sm' \<and> running sm' \<and> raf sm' = raf sm \<and>
                pending sm' = pending sm \<and> nextHandle sm' = nextHandle sm"
    by (auto simp: sched_same_def)
  moreover from runEvents_sched_ok [of e0 evs]
  have "\<exists>smn. runEvents e0 evs = Some smn \<and> length (pending smn) \<le> 1 \<and>
                (running smn \<longleftrightarrow> pending smn \<noteq> [])"
    by (simp add: sched_ok_def)
  ultimately show ?thesis by simp
qed

theorem ensureRun_idempotent_witness:
  "running simRunning \<and>
   (\<exists>sm'. ensureRun False envW simRunning = Some sm' \<and> running sm' \<and> raf sm' = 1 \<and>
          pending sm' = [1] \<and> nextHandle sm' = 2) \<and>
   handleEvent Redraw envW simRunning = ensureRun False envW simRunning \<and>
   (\<exists>smn. runEvents envW [(Redraw, envW), (Frame 16, envW), (Redraw, envW)] = Some smn \<and>
          length (pending smn) \<le> 1 \<and> (running smn \<longleftrightarrow> pending smn \<noteq> []))"
proof -
  have r: "running simRunning" by (simp add: simRunning_def)
  have f: "raf simRunning = 1" "pending simRunning = [1]" "nextHandle simRunning = 2"
    by (simp_all add: simRunning_def)
  show ?thesis
    using r ensureRun_idempotent [OF r, of False envW envW
        "[(Redraw, envW), (Frame 16, envW), (Redraw, envW)]"]
    unfolding f by blast
qed

subsection \<open>Settling\<close>

lemma damp16_bounds: "0.8976 \<le> damp16 \<and> damp16 \<le> 0.905"
proof -
  have "1 + (- 0.1024) \<le> exp (- 0.1024 :: real)" by (rule exp_ge_add_one_self)
  then have lo: "0.8976 \<le> damp16" by (simp add: damp16_def)
  have "1 + 0.1024 + (0.1024)\<^sup>2 / 2 \<le> exp (0.1024 :: real)"
    by (rule exp_lower_Taylor_quadratic) simp
  then have "1.1076 \<le> exp (0.1024 :: real)" by (simp add: power2_eq_square)
  then have "exp (- 0.1024 :: real) \<le> 1 / 1.1076"
    unfolding exp_minus by (simp add: field_simps)
  then have "damp16 \<le> 0.905" by (simp add: damp16_def)
  with lo show ?thesis by simp
qed

lemma spring_step:
  fixes u v d :: real
  assumes d: "0.8976 \<le> d" "d \<le> 0.905" and u: "0 \<le> u" and v: "v \<le> 0" "- 2 * u \<le> v"
  defines "v' \<equiv> (v + (- u) * 8.8 * 0.016) * d"
  defines "u' \<equiv> u + v' * 0.016"
  shows "0 \<le> u' \<and> v' \<le> 0 \<and> - 2 * u' \<le> v' \<and> u' \<le> rho * u"
proof -
  define w where "w = - v + 0.1408 * u"
  have w: "0.1408 * u \<le> w" "w \<le> 2.1408 * u" using v by (simp_all add: w_def)
  have w0: "0 \<le> w" using w(1) u by simp
  have v'eq: "v' = - (d * w)" by (simp add: v'_def w_def algebra_simps)
  have lo: "0.8976 * (0.1408 * u) \<le> d * w"
    by (rule mult_mono [OF d(1) w(1)]) (use d u in simp_all)
  have hi: "d * w \<le> 0.905 * (2.1408 * u)"
    by (rule mult_mono [OF d(2) w(2)]) (use w0 in simp_all)
  have "u' = u - 0.016 * (d * w)" by (simp add: u'_def v'eq)
  then show ?thesis
    using lo hi u unfolding v'eq rho_def by simp
qed

lemma osc_step:
  fixes u v d r :: real
  assumes d: "0.8976 \<le> d" "d \<le> 0.905" and o: "osc u v" and r: "\<bar>u\<bar> \<le> r"
  defines "v' \<equiv> (v + (- u) * 8.8 * 0.016) * d"
  defines "u' \<equiv> u + v' * 0.016"
  shows "osc u' v' \<and> \<bar>u'\<bar> \<le> rho * r"
proof -
  have rho: "0 \<le> rho" by (simp add: rho_def)
  from o consider (pos) "0 \<le> u" "v \<le> 0" "- 2 * u \<le> v"
    | (neg) "u \<le> 0" "0 \<le> v" "v \<le> - 2 * u"
    by (auto simp: osc_def)
  then show ?thesis
  proof cases
    case pos
    from spring_step [OF d pos]
    have s: "0 \<le> u'" "v' \<le> 0" "- 2 * u' \<le> v'" "u' \<le> rho * u"
      by (simp_all add: u'_def v'_def)
    have "rho * u \<le> rho * r" using r pos(1) rho by (intro mult_left_mono) simp_all
    with s show ?thesis by (simp add: osc_def)
  next
    case neg
    have n: "0 \<le> - u" "- v \<le> 0" "- 2 * (- u) \<le> - v" using neg by simp_all
    from spring_step [OF d n]
    have s: "0 \<le> - u'" "- v' \<le> 0" "- 2 * (- u') \<le> - v'" "- u' \<le> rho * (- u)"
      by (simp_all add: u'_def v'_def algebra_simps)
    have "rho * (- u) \<le> rho * r" using r neg(1) rho by (intro mult_left_mono) simp_all
    with s show ?thesis by (simp add: osc_def)
  qed
qed

lemma stepNode_still:
  fixes sm :: sim
  defines "n' \<equiv> \<lambda>nowMs n. stepNode 0.016 nowMs False sm n"
  shows "n_vx (n' nowMs n) = (n_vx n + (- (n_x n - n_bx n)) * 8.8 * 0.016) * damp16"
    and "n_vy (n' nowMs n) = (n_vy n + (- (n_y n - n_by n)) * 8.8 * 0.016) * damp16"
    and "n_x (n' nowMs n) - n_bx (n' nowMs n) = (n_x n - n_bx n) + n_vx (n' nowMs n) * 0.016"
    and "n_y (n' nowMs n) - n_by (n' nowMs n) = (n_y n - n_by n) + n_vy (n' nowMs n) * 0.016"
  by (simp_all add: n'_def stepNode_def pointerAccel_def recentlyMoved_def damp16_def Let_def)

lemma stepNode_settling:
  assumes "settling r n"
  shows "settling (rho * r) (stepNode 0.016 nowMs False sm n)"
proof -
  note b = damp16_bounds [THEN conjunct1] damp16_bounds [THEN conjunct2]
  from assms have ox: "osc (n_x n - n_bx n) (n_vx n)" and rx: "\<bar>n_x n - n_bx n\<bar> \<le> r"
    and oy: "osc (n_y n - n_by n) (n_vy n)" and ry: "\<bar>n_y n - n_by n\<bar> \<le> r"
    by (simp_all add: settling_def)
  from osc_step [OF b ox rx] osc_step [OF b oy ry]
  show ?thesis
    unfolding settling_def stepNode_still [of nowMs sm n] by simp
qed

lemma settling_speed:
  assumes "settling r n"
  shows "\<bar>n_vx n\<bar> + \<bar>n_vy n\<bar> \<le> 4 * r"
proof -
  have "\<bar>v\<bar> \<le> 2 * \<bar>u\<bar>" if "osc u v" for u v :: real
    using that by (auto simp: osc_def)
  with assms have "\<bar>n_vx n\<bar> \<le> 2 * r" "\<bar>n_vy n\<bar> \<le> 2 * r"
    by (fastforce simp: settling_def)+
  then show ?thesis by simp
qed

lemma displaced_settling:
  assumes "hypot (n_x n - n_bx n) (n_y n - n_by n) = 10" "n_vx n = 0" "n_vy n = 0"
  shows "settling 10 n"
proof -
  define a where "a = n_x n - n_bx n"
  define b where "b = n_y n - n_by n"
  have sq: "a * a + b * b = 10 * 10"
    unfolding a_def b_def by (rule hypot_sq [OF assms(1)])
  have "\<bar>a\<bar> \<le> 10"
  proof (rule ccontr)
    assume "\<not> \<bar>a\<bar> \<le> 10"
    then have "10 * 10 < \<bar>a\<bar> * \<bar>a\<bar>" by (intro mult_strict_mono) simp_all
    moreover have "0 \<le> b * b" by simp
    ultimately show False using sq by simp
  qed
  moreover have "\<bar>b\<bar> \<le> 10"
  proof (rule ccontr)
    assume "\<not> \<bar>b\<bar> \<le> 10"
    then have "10 * 10 < \<bar>b\<bar> * \<bar>b\<bar>" by (intro mult_strict_mono) simp_all
    moreover have "0 \<le> a * a" by simp
    ultimately show False using sq by simp
  qed
  ultimately show ?thesis
    using assms(2,3) by (auto simp: settling_def osc_def a_def b_def)
qed

lemma settleRun_nodes:
  "nodes (graph (settleRun nows (Suc k) sm)) =
     map (stepNode 0.016 (nows k) False (settleRun nows k sm)) (nodes (graph (settleRun nows k sm)))"
  by (simp add: step_eq)

lemma settleRun_settling:
  assumes "list_all (settling r) (nodes (graph sm))"
  shows "list_all (settling (rho ^ k * r)) (nodes (graph (settleRun nows k sm)))"
proof (induction k)
  case 0
  with assms show ?case by simp
next
  case (Suc k)
  have "settling (rho ^ Suc k * r) (stepNode 0.016 (nows k) False (settleRun nows k sm) n)"
    if "n \<in> set (nodes (graph (settleRun nows k sm)))" for n
  proof -
    from Suc that have "settling (rho ^ k * r) n" by (simp add: list_all_iff)
    from stepNode_settling [OF this, of "nows k" "settleRun nows k sm"]
    show ?thesis by (simp add: mult.assoc)
  qed
  then show ?case
    unfolding settleRun_nodes by (simp add: list_all_iff)
qed

lemma sum_list_bound:
  fixes f :: "'a \<Rightarrow> real"
  assumes "\<And>x. x \<in> set xs \<Longrightarrow> f x \<le> B"
  shows "(\<Sum>x\<leftarrow>xs. f x) \<le> real (length xs) * B"
  using assms by (induction xs) (simp_all add: algebra_simps add_mono)

lemma mean_bound:
  fixes f :: "'a \<Rightarrow> real"
  assumes "\<And>x. x \<in> set xs \<Longrightarrow> f x \<le> B" and "0 \<le> B"
  shows "(\<Sum>x\<leftarrow>xs. f x) / max 1 (real (length xs)) \<le> B"
proof (cases xs)
  case Nil
  with assms(2) show ?thesis by simp
next
  case (Cons y ys)
  then have m: "max 1 (real (length xs)) = real (length xs)" "0 < real (length xs)" by simp_all
  have "(\<Sum>x\<leftarrow>xs. f x) \<le> real (length xs) * B" by (rule sum_list_bound [OF assms(1)])
  then show ?thesis unfolding m(1) using m(2) by (simp add: field_simps)
qed

lemma settleMetric_bound:
  assumes "displaced10 sm"
  shows "settleMetric nows k sm \<le> 40 * rho ^ Suc k"
proof -
  have r0: "0 \<le> rho" by (simp add: rho_def)
  have "list_all (settling 10) (nodes (graph sm))"
    using assms by (auto simp: displaced10_def list_all_iff intro: displaced_settling)
  then have "list_all (settling (rho ^ Suc k * 10)) (nodes (graph (settleRun nows (Suc k) sm)))"
    by (rule settleRun_settling)
  then have b: "\<bar>n_vx n\<bar> + \<bar>n_vy n\<bar> \<le> 40 * rho ^ Suc k"
    if "n \<in> set (nodes (graph (settleRun nows (Suc k) sm)))" for n
    using settling_speed [of "rho ^ Suc k * 10" n] that by (simp add: list_all_iff)
  have "settleMetric nows k sm =
      (\<Sum>n\<leftarrow>nodes (graph (settleRun nows (Suc k) sm)). \<bar>n_vx n\<bar> + \<bar>n_vy n\<bar>)
        / max 1 (real (length (nodes (graph (settleRun nows (Suc k) sm)))))"
    by (simp add: settleMetric_def step_eq)
  also have "\<dots> \<le> 40 * rho ^ Suc k"
    by (rule mean_bound [OF b]) (use r0 in simp_all)
  finally show ?thesis .
qed

lemma rho_small: "\<exists>N. \<forall>k\<ge>N. 40 * rho ^ Suc k < 0.0013"
proof -
  have r: "0 \<le> rho" "rho < 1" by (simp_all add: rho_def)
  obtain N where N: "rho ^ N < 0.0013 / 40"
    using real_arch_pow_inv [of "0.0013 / 40" rho] r(2) by auto
  have "40 * rho ^ Suc k < 0.0013" if "N \<le> k" for k
  proof -
    have "rho ^ Suc k \<le> rho ^ N"
      by (rule power_decreasing) (use that r in simp_all)
    with N show ?thesis by simp
  qed
  then show ?thesis by blast
qed

text \<open>
  C6. There is a number of steps \<open>N\<close>, the same for every graph, such that from any
  state in which every node is 10 units from its rest position with zero velocity,
  stepping with \<open>dt = 0.016\<close> and interaction disabled, every call after the first \<open>N\<close>
  returns a settling metric below 0.0013. (Exact real arithmetic: each displacement
  shrinks by the factor \<open>rho\<close> per step and each speed is at most twice its displacement.)
\<close>

theorem settling_converges:
  "\<exists>N. \<forall>sm nows. displaced10 sm \<longrightarrow> (\<forall>k\<ge>N. settleMetric nows k sm < 0.0013)"
proof -
  obtain N where N: "\<forall>k\<ge>N. 40 * rho ^ Suc k < 0.0013"
    using rho_small by blast
  have "settleMetric nows k sm < 0.0013" if "displaced10 sm" "N \<le> k" for sm nows k
    using settleMetric_bound [OF that(1), of nows k] N that(2) by fastforce
  then show ?thesis by blast
qed

lemma sqrt_100: "sqrt 100 = 10"
  using real_sqrt_abs [of 10] by simp

theorem settling_converges_witness:
  "displaced10 sim10 \<and> (\<exists>N. \<forall>k\<ge>N. settleMetric (\<lambda>_. 0) k sim10 < 0.0013)"
proof -
  have d: "displaced10 sim10"
    by (simp add: displaced10_def sim10_def node10_def hypot_def sqrt_100)
  from settling_converges obtain N
    where "\<forall>sm nows. displaced10 sm \<longrightarrow> (\<forall>k\<ge>N. settleMetric nows k sm < 0.0013)" ..
  with d have "\<forall>k\<ge>N. settleMetric (\<lambda>_. 0) k sim10 < 0.0013" by blast
  with d show ?thesis by blast
qed

end
